theory Spec2Isabelle
  imports Main "HOL-Library.Word"
begin

section \<open>A parallel genome search (psg.c): data model\<close>

text \<open>
  The program loads FASTA files into one heap block and counts the occurrences of a literal
  pattern with \<open>num_threads\<close> POSIX threads, each scanning \<open>chunk_size\<close> start offsets.

  Conventions of the embedding.
  \<^item> A pointer into the sequence block is the offset from \<open>fasta->sequence\<close>, a \<open>nat\<close>;
    \<open>last_location\<close> is an \<open>int\<close>, because \<open>ptr + chunk_size - 1\<close> lies one byte before the
    block when \<open>chunk_size\<close> is 0.
  \<^item> The block that \<open>malloc(max_length)\<close> returns is a \<open>char list\<close> of that length. Its
    bytes are indeterminate until written, so the initial content is a parameter. A load
    or store at an offset outside the list is undefined behaviour of the C program and is
    a \<open>failure\<close> value of the model.
  \<^item> The numbers that the options carry are machine words: \<open>atol\<close> returns a 64-bit \<open>long\<close>
    and \<open>atoi\<close> a 32-bit \<open>int\<close>, and the products that \<open>main\<close> forms of them wrap around. The
    lengths, offsets and counters are unbounded (\<open>nat\<close> where the code only counts up from
    0, \<open>int\<close> otherwise): each is bounded by the number of bytes held in memory.
  \<^item> A C string is the list of its characters; the terminating NUL is implicit.
  \<^item> The library calls are taken to succeed where the program only checks them to give up:
    \<open>gzgets\<close> meets no read error, and \<open>pthread_mutex_init\<close>, \<open>pthread_create\<close> and
    \<open>pthread_join\<close> return 0. What the program prints is not modelled, except for the
    final report.
\<close>

definition NUL :: char where
  "NUL = CHR 0x00"

definition newline :: char where
  "newline = CHR 0x0A"

text \<open>The ways a run ends without a report: the \<open>exit(1)\<close> paths, and the undefined
  behaviours the code can reach.\<close>

datatype failure =
    Usage              \<comment> \<open>\<open>usage()\<close>: message and \<open>exit(1)\<close>\<close>
  | CantOpen           \<comment> \<open>\<open>gzopen\<close> returned NULL: \<open>exit(1)\<close>\<close>
  | BufferTooSmall     \<comment> \<open>"fasta buffer too small": \<open>exit(1)\<close>\<close>
  | BogusBounds        \<comment> \<open>\<open>clamp\<close> with \<open>low >= high\<close>: \<open>exit(1)\<close>\<close>
  | HeapOverflow       \<comment> \<open>store through \<open>seq_ptr\<close> outside the allocated block\<close>
  | LineOverrun        \<comment> \<open>\<open>line_ptr\<close> leaves \<open>line_buffer\<close> before a newline is found\<close>
  | OutOfBoundsRead    \<comment> \<open>\<open>strncmp\<close> loads a byte outside the allocated block\<close>
  | DivideByZero       \<comment> \<open>\<open>cur_length / num_threads\<close> with \<open>num_threads = 0\<close>\<close>

record fasta_t =
  sequence :: "char list"    \<comment> \<open>the whole allocated block\<close>
  seq_ptr :: nat             \<comment> \<open>next location to store data, as an offset\<close>
  max_length :: int            \<comment> \<open>max length allocated (the argument of \<open>fasta_create\<close>)\<close>
  cur_length :: nat

text \<open>The global variables, from the point in \<open>main\<close> where \<open>fasta\<close> and \<open>pattern\<close> are set
  (before that both are NULL and \<open>main\<close> exits through \<open>usage\<close>).\<close>

record globals =
  verbose :: bool
  pattern :: "char list"
  num_threads :: int
  fasta :: fasta_t
  match_count :: int
  trial_count :: int
  chunk_size :: int

section \<open>Ingestion: the sequence buffer\<close>

definition line_buffer_length :: nat where
  "line_buffer_length = 1024"

text \<open>\<open>n\<close> bytes of indeterminate content (a fresh heap block, a fresh stack array): the first
  \<open>n\<close> bytes of \<open>junk\<close>, padded with NUL when \<open>junk\<close> is shorter.\<close>

definition indeterminate :: "nat \<Rightarrow> char list \<Rightarrow> char list" where
  "indeterminate n junk = take n junk @ replicate (n - length junk) NUL"

text \<open>\<open>fasta_create\<close>. A negative \<open>max_length\<close> makes \<open>malloc\<close> fail; the model then has an
  empty block, so that the first store is a failure.\<close>

definition fasta_create :: "int \<Rightarrow> char list \<Rightarrow> fasta_t" where
  "fasta_create max_len heap =
     \<lparr>sequence = indeterminate (nat max_len) heap, seq_ptr = 0,
      max_length = max_len, cur_length = 0\<rparr>"

text \<open>\<open>*fasta->seq_ptr++ = c; fasta->cur_length++\<close>\<close>

definition store_byte :: "fasta_t \<Rightarrow> char \<Rightarrow> failure + fasta_t" where
  "store_byte f c =
     (if seq_ptr f < length (sequence f)
      then Inr (f\<lparr>sequence := (sequence f)[seq_ptr f := c],
                  seq_ptr := Suc (seq_ptr f),
                  cur_length := Suc (cur_length f)\<rparr>)
      else Inl HeapOverflow)"

text \<open>The inner loop \<open>while (*line_ptr != '\n')\<close>; the list is the content of
  \<open>line_buffer\<close> from \<open>line_ptr\<close> on. The loop does not stop at the terminating NUL.\<close>

fun copy_line :: "char list \<Rightarrow> fasta_t \<Rightarrow> failure + fasta_t" where
  "copy_line [] f = Inl LineOverrun"
| "copy_line (c # rest) f =
     (if c = newline then Inr f
      else case store_byte f c of Inl e \<Rightarrow> Inl e | Inr f' \<Rightarrow> copy_line rest f')"

text \<open>What \<open>gzgets\<close> transfers: at most \<open>n\<close> characters, up to and including the first
  newline.\<close>

fun take_line :: "nat \<Rightarrow> char list \<Rightarrow> char list" where
  "take_line 0 s = []"
| "take_line (Suc n) [] = []"
| "take_line (Suc n) (c # s) = (if c = newline then [c] else c # take_line n s)"

text \<open>\<open>gzgets(gzfp, buf, len)\<close> on the uncompressed stream \<open>gzfp\<close>: \<open>None\<close> (NULL) at the end
  of the stream, else the new content of \<open>buf\<close> (the characters read, a NUL, and the old
  bytes behind it) and the rest of the stream.\<close>

definition gzgets :: "char list \<Rightarrow> char list \<Rightarrow> nat \<Rightarrow> (char list \<times> char list) option" where
  "gzgets gzfp buf len =
     (if gzfp = [] then None
      else let got = take_line (len - 1) gzfp
           in Some (got @ NUL # drop (Suc (length got)) buf, drop (length got) gzfp))"

lemma take_line_nonempty: "s \<noteq> [] \<Longrightarrow> 0 < n \<Longrightarrow> take_line n s \<noteq> []"
  by (cases n; cases s) auto

lemma gzgets_consumes:
  "gzgets gzfp buf line_buffer_length = Some br \<Longrightarrow> length (snd br) < length gzfp"
  using take_line_nonempty [of gzfp "line_buffer_length - 1"]
  by (auto simp: gzgets_def Let_def line_buffer_length_def split: if_splits)

text \<open>The loop over the lines of one file, with the capacity check after each line.\<close>

function read_lines :: "char list \<Rightarrow> char list \<Rightarrow> fasta_t \<Rightarrow> failure + fasta_t" where
  "read_lines gzfp line_buffer f =
     (case gzgets gzfp line_buffer line_buffer_length of
        None \<Rightarrow> Inr f
      | Some br \<Rightarrow>
          (case (if fst br ! 0 = CHR ''>'' then Inr f else copy_line (fst br) f) of
             Inl e \<Rightarrow> Inl e
           | Inr f' \<Rightarrow>
               if int (cur_length f') + int line_buffer_length > max_length f'
               then Inl BufferTooSmall
               else read_lines (snd br) (fst br) f'))"
  by pat_completeness auto
termination
  by (relation "measure (\<lambda>(gzfp, line_buffer, f). length gzfp)")
     (auto dest: gzgets_consumes)

text \<open>\<open>fasta_read_file\<close>: \<open>None\<close> is a file that \<open>gzopen\<close> cannot open; \<open>stack\<close> is the
  indeterminate content of the fresh \<open>line_buffer\<close>.\<close>

definition fasta_read_file :: "char list option \<Rightarrow> char list \<Rightarrow> fasta_t \<Rightarrow> failure + fasta_t" where
  "fasta_read_file file stack f =
     (case file of
        None \<Rightarrow> Inl CantOpen
      | Some gzfp \<Rightarrow> read_lines gzfp (indeterminate line_buffer_length stack) f)"

section \<open>The scan worker\<close>

definition strlen :: "char list \<Rightarrow> nat" where
  "strlen s = length (takeWhile (\<lambda>c. c \<noteq> NUL) s)"

definition c_str_at :: "char list \<Rightarrow> nat \<Rightarrow> char" where
  "c_str_at s j = (if j < length s then s ! j else NUL)"

text \<open>\<open>strncmp(mem + a, s2, n)\<close>, entered with \<open>j = 0\<close>: compares at most \<open>n\<close> characters and
  stops at the first difference or at a NUL. The result is the value \<open>strncmp\<close> returns
  together with the number of bytes of the block it has loaded.\<close>

fun strncmp :: "char list \<Rightarrow> nat \<Rightarrow> char list \<Rightarrow> nat \<Rightarrow> nat \<Rightarrow> failure + (int \<times> nat)" where
  "strncmp mem a s2 j 0 = Inr (0, j)"
| "strncmp mem a s2 j (Suc n) =
     (if length mem \<le> a + j then Inl OutOfBoundsRead
      else if mem ! (a + j) \<noteq> c_str_at s2 j
        then Inr (of_char (mem ! (a + j)) - of_char (c_str_at s2 j), Suc j)
      else if mem ! (a + j) = NUL then Inr (0, Suc j)
      else strncmp mem a s2 (Suc j) n)"

text \<open>\<open>min\<close>, \<open>max\<close> and \<open>clamp\<close> compare pointers into the block; here they compare the
  offsets from \<open>fasta->sequence\<close>.\<close>

definition clamp :: "int \<Rightarrow> int \<Rightarrow> int \<Rightarrow> failure + int" where
  "clamp val low high = (if high \<le> low then Inl BogusBounds else Inr (min (max val low) high))"

definition padding_bytes :: int where
  "padding_bytes = 8"

text \<open>\<open>bytes_around\<close> prints the bytes of the block at the offsets \<open>first_p \<le> p < last_p\<close>
  (\<open>first\<close> and \<open>last\<close> in the C code) with padding, brackets and the offset of the match.
  The result is the range of the bytes it loads; the text it prints is not modelled.\<close>

definition bytes_around :: "fasta_t \<Rightarrow> nat \<Rightarrow> nat \<Rightarrow> failure + (int \<times> int)" where
  "bytes_around f current len =
     (case clamp (int current - padding_bytes) 0 (int (cur_length f)) of
        Inl e \<Rightarrow> Inl e
      | Inr first_p \<Rightarrow>
          (case clamp (int current + int len + padding_bytes) 0 (int (cur_length f)) of
             Inl e \<Rightarrow> Inl e
           | Inr last_p \<Rightarrow> Inr (first_p, last_p)))"

text \<open>One entry per start offset tested: the offset, the number of bytes \<open>strncmp\<close> loaded
  from the block, and whether it returned 0. The log is not a variable of the C code; it
  records what the loop does.\<close>

type_synonym probe = "nat \<times> nat \<times> bool"

text \<open>The loop of \<open>parallel_match\<close>. It reads the globals \<open>verbose\<close>, \<open>fasta\<close> and \<open>pattern\<close>,
  here the first three arguments.\<close>

function scan_loop ::
  "bool \<Rightarrow> fasta_t \<Rightarrow> char list \<Rightarrow> nat \<Rightarrow> int \<Rightarrow> nat \<Rightarrow> int \<Rightarrow> int \<Rightarrow> probe list
     \<Rightarrow> failure + (int \<times> int \<times> probe list)" where
  "scan_loop v f pat pattern_length last_location cur_location local_count local_trial log =
     (if int cur_location \<le> last_location then
        (case strncmp (sequence f) cur_location pat 0 pattern_length of
           Inl e \<Rightarrow> Inl e
         | Inr rk \<Rightarrow>
             if fst rk = 0 then
               (case (if v then bytes_around f cur_location pattern_length else Inr (0, 0)) of
                  Inl e \<Rightarrow> Inl e
                | Inr shown \<Rightarrow>
                    scan_loop v f pat pattern_length last_location (Suc cur_location)
                      (local_count + 1) (local_trial + 1) (log @ [(cur_location, snd rk, True)]))
             else
               scan_loop v f pat pattern_length last_location (Suc cur_location)
                 local_count (local_trial + 1) (log @ [(cur_location, snd rk, False)]))
      else Inr (local_count, local_trial, log))"
  by pat_completeness auto
termination
  by (relation "measure (\<lambda>(v, f, pat, n, last_location, cur_location, r).
        nat (last_location + 1 - int cur_location))") auto

text \<open>The body of \<open>parallel_match\<close> up to the mutex: the thread's local results.\<close>

definition scan_chunk :: "globals \<Rightarrow> nat \<Rightarrow> failure + (int \<times> int \<times> probe list)" where
  "scan_chunk g ptr =
     scan_loop (verbose g) (fasta g) (pattern g) (strlen (pattern g))
       (int ptr + chunk_size g - 1) ptr 0 0 []"

text \<open>\<open>parallel_match\<close>: the scan, then the critical section that adds the local results
  to the shared counters.\<close>

definition parallel_match :: "globals \<Rightarrow> nat \<Rightarrow> failure + globals" where
  "parallel_match g ptr =
     (case scan_chunk g ptr of
        Inl e \<Rightarrow> Inl e
      | Inr (local_count, local_trial, log) \<Rightarrow>
          Inr (g\<lparr>match_count := match_count g + local_count,
                 trial_count := trial_count g + local_trial\<rparr>))"

section \<open>The partition and the scan phase of main\<close>

text \<open>C's integer division truncates towards zero.\<close>

definition c_div :: "int \<Rightarrow> int \<Rightarrow> int" where
  "c_div a b = sgn a * sgn b * (\<bar>a\<bar> div \<bar>b\<bar>)"

text \<open>The loop that creates the threads: the list of the arguments \<open>match_ptr\<close> handed to
  \<open>pthread_create\<close>, in order.\<close>

function spawn_loop :: "int \<Rightarrow> int \<Rightarrow> nat \<Rightarrow> int \<Rightarrow> nat list" where
  "spawn_loop i n match_ptr chunk =
     (if i < n then match_ptr # spawn_loop (i + 1) n (nat (int match_ptr + chunk)) chunk
      else [])"
  by pat_completeness auto
termination
  by (relation "measure (\<lambda>(i, n, match_ptr, chunk). nat (n - i))") auto

text \<open>The threads share only the two counters, which they touch inside the critical
  section. \<open>run_threads\<close> runs them one after the other, in the order of creation; the
  section on the mutex shows that every interleaving ends with the same counters.\<close>

fun run_threads :: "globals \<Rightarrow> nat list \<Rightarrow> failure + globals" where
  "run_threads g [] = Inr g"
| "run_threads g (ptr # ptrs) =
     (case parallel_match g ptr of Inl e \<Rightarrow> Inl e | Inr g' \<Rightarrow> run_threads g' ptrs)"

text \<open>Lines 296 to 310 of \<open>main\<close>: the chunk size, the creation of the threads and the
  joins. The array \<open>threads[num_threads]\<close> of the thread handles is not modelled.\<close>

definition scan_phase :: "globals \<Rightarrow> failure + globals" where
  "scan_phase g =
     (if num_threads g = 0 then Inl DivideByZero
      else
        let g1 = g\<lparr>chunk_size := c_div (int (cur_length (fasta g))) (num_threads g)\<rparr>
        in run_threads g1 (spawn_loop 0 (num_threads g1) 0 (chunk_size g1)))"

section \<open>main\<close>

text \<open>One option as \<open>getopt\<close> delivers it. A number is the value that \<open>atol(optarg)\<close>
  returns, a 64-bit \<open>long\<close>, or the value that \<open>atoi(optarg)\<close> returns, a 32-bit \<open>int\<close>.\<close>

datatype option_arg =
  Opt_b "64 word" | Opt_g "64 word" | Opt_m "64 word" | Opt_p "char list" | Opt_v
  | Opt_n "32 word" | Opt_h | Opt_other

definition ONE_MEGA :: "64 word" where
  "ONE_MEGA = 1024 * 1024"

definition ONE_GIGA :: "64 word" where
  "ONE_GIGA = ONE_MEGA * 1024"

text \<open>The local \<open>long fasta_max_length\<close> and the globals that the options set. The products
  \<open>atol(optarg) * ONE_GIGA\<close> and \<open>atol(optarg) * ONE_MEGA\<close> are computed in a 64-bit \<open>long\<close>, where
  they wrap around.\<close>

record settings =
  fasta_max_length :: "64 word"
  pattern_arg :: "char list option"    \<comment> \<open>\<open>pattern\<close>, NULL until \<open>-p\<close> is seen\<close>
  verbose_arg :: bool
  num_threads_arg :: "32 word"

fun getopt_loop :: "option_arg list \<Rightarrow> settings \<Rightarrow> failure + settings" where
  "getopt_loop [] c = Inr c"
| "getopt_loop (Opt_b n # rest) c = getopt_loop rest (c\<lparr>fasta_max_length := n\<rparr>)"
| "getopt_loop (Opt_g n # rest) c = getopt_loop rest (c\<lparr>fasta_max_length := n * ONE_GIGA\<rparr>)"
| "getopt_loop (Opt_m n # rest) c = getopt_loop rest (c\<lparr>fasta_max_length := n * ONE_MEGA\<rparr>)"
| "getopt_loop (Opt_p s # rest) c = getopt_loop rest (c\<lparr>pattern_arg := Some s\<rparr>)"
| "getopt_loop (Opt_v # rest) c = getopt_loop rest (c\<lparr>verbose_arg := True\<rparr>)"
| "getopt_loop (Opt_n n # rest) c = getopt_loop rest (c\<lparr>num_threads_arg := n\<rparr>)"
| "getopt_loop (Opt_h # rest) c = Inl Usage"
| "getopt_loop (Opt_other # rest) c = Inl Usage"

definition initial_settings :: settings where
  "initial_settings =
     \<lparr>fasta_max_length = 0, pattern_arg = None, verbose_arg = False, num_threads_arg = 1\<rparr>"

fun read_files :: "char list option list \<Rightarrow> char list \<Rightarrow> fasta_t \<Rightarrow> failure + fasta_t" where
  "read_files [] stack f = Inr f"
| "read_files (file # files) stack f =
     (case fasta_read_file file stack f of Inl e \<Rightarrow> Inl e | Inr f' \<Rightarrow> read_files files stack f')"

text \<open>The globals when the scan phase starts: the counters still have their static
  initial value 0.\<close>

definition start_globals :: "bool \<Rightarrow> char list \<Rightarrow> int \<Rightarrow> fasta_t \<Rightarrow> globals" where
  "start_globals v pat n f =
     \<lparr>verbose = v, pattern = pat, num_threads = n, fasta = f,
      match_count = 0, trial_count = 0, chunk_size = 0\<rparr>"

text \<open>What the program prints at the end (the elapsed time is left out).\<close>

record report =
  tried :: int
  searched_pattern :: "char list"
  matched :: int

definition main :: "option_arg list \<Rightarrow> char list option list \<Rightarrow> char list \<Rightarrow> char list
    \<Rightarrow> failure + report" where
  "main opts files heap stack =
     (case getopt_loop opts initial_settings of
        Inl e \<Rightarrow> Inl e
      | Inr c \<Rightarrow>
          (case pattern_arg c of
             None \<Rightarrow> Inl Usage
           | Some pat \<Rightarrow>
               if fasta_max_length c = 0 then Inl Usage
               else
                 (case read_files files stack (fasta_create (sint (fasta_max_length c)) heap) of
                    Inl e \<Rightarrow> Inl e
                  | Inr f \<Rightarrow>
                      (case scan_phase
                              (start_globals (verbose_arg c) pat (sint (num_threads_arg c)) f) of
                         Inl e \<Rightarrow> Inl e
                       | Inr g \<Rightarrow>
                           Inr \<lparr>tried = trial_count g, searched_pattern = pattern g,
                                matched = match_count g\<rparr>))))"

section \<open>The mutex: interleavings of the critical sections\<close>

text \<open>A thread scans without touching shared mutable state, so its scan is one step that
  happens before it reaches \<open>pthread_mutex_lock\<close>. From there on the threads interleave;
  each \<open>+=\<close> on a shared counter is a load into a register followed by a store.\<close>

text \<open>Where a thread stands after its scan: before \<open>pthread_mutex_lock\<close>, before the load and
  before the store of \<open>match_count += local_count\<close>, before the load and before the store of
  \<open>trial_count += local_trial\<close>, before \<open>pthread_mutex_unlock\<close>, and at its end.\<close>

datatype pc = AtLock | LoadMatch | StoreMatch | LoadTrial | StoreTrial | AtUnlock | Finished

record thread =
  pc :: pc
  local_count :: int
  local_trial :: int
  tmp :: int                 \<comment> \<open>the register that holds the loaded counter\<close>

record conc =
  shared :: globals
  holder :: "nat option"     \<comment> \<open>the thread that holds \<open>shared_counter_mutex\<close>\<close>
  threads :: "thread list"

text \<open>One step of thread \<open>i\<close>. There is none (\<open>None\<close>) when the thread does not exist, has
  ended, or waits for the mutex while another thread holds it.\<close>

definition thread_step :: "nat \<Rightarrow> conc \<Rightarrow> conc option" where
  "thread_step i s =
     (if length (threads s) \<le> i then None
      else
        let t = threads s ! i in
        case pc t of
          AtLock \<Rightarrow>
            (if holder s = None
             then Some (s\<lparr>holder := Some i, threads := (threads s)[i := t\<lparr>pc := LoadMatch\<rparr>]\<rparr>)
             else None)
        | LoadMatch \<Rightarrow>
            Some (s\<lparr>threads := (threads s)[i := t\<lparr>pc := StoreMatch, tmp := match_count (shared s)\<rparr>]\<rparr>)
        | StoreMatch \<Rightarrow>
            Some (s\<lparr>shared := (shared s)\<lparr>match_count := tmp t + local_count t\<rparr>,
                    threads := (threads s)[i := t\<lparr>pc := LoadTrial\<rparr>]\<rparr>)
        | LoadTrial \<Rightarrow>
            Some (s\<lparr>threads := (threads s)[i := t\<lparr>pc := StoreTrial, tmp := trial_count (shared s)\<rparr>]\<rparr>)
        | StoreTrial \<Rightarrow>
            Some (s\<lparr>shared := (shared s)\<lparr>trial_count := tmp t + local_trial t\<rparr>,
                    threads := (threads s)[i := t\<lparr>pc := AtUnlock\<rparr>]\<rparr>)
        | AtUnlock \<Rightarrow>
            Some (s\<lparr>holder := None, threads := (threads s)[i := t\<lparr>pc := Finished\<rparr>]\<rparr>)
        | Finished \<Rightarrow> None)"

text \<open>A schedule names the thread that takes the next step, step by step.\<close>

fun run_schedule :: "nat list \<Rightarrow> conc \<Rightarrow> conc option" where
  "run_schedule [] s = Some s"
| "run_schedule (i # sched) s =
     (case thread_step i s of None \<Rightarrow> None | Some s' \<Rightarrow> run_schedule sched s')"

text \<open>Every \<open>pthread_join\<close> has returned: every thread has ended.\<close>

definition joined :: "conc \<Rightarrow> bool" where
  "joined s = list_all (\<lambda>t. pc t = Finished) (threads s)"

text \<open>The state after the creation of the threads: each thread with the local results of
  its scan, in front of the mutex.\<close>

fun scan_all :: "globals \<Rightarrow> nat list \<Rightarrow> failure + thread list" where
  "scan_all g [] = Inr []"
| "scan_all g (ptr # ptrs) =
     (case scan_chunk g ptr of
        Inl e \<Rightarrow> Inl e
      | Inr r \<Rightarrow>
          (case scan_all g ptrs of
             Inl e \<Rightarrow> Inl e
           | Inr ts \<Rightarrow>
               Inr (\<lparr>pc = AtLock, local_count = fst r, local_trial = fst (snd r), tmp = 0\<rparr> # ts)))"

definition fork :: "globals \<Rightarrow> nat list \<Rightarrow> failure + conc" where
  "fork g ptrs =
     (case scan_all g ptrs of
        Inl e \<Rightarrow> Inl e
      | Inr ts \<Rightarrow> Inr \<lparr>shared = g, holder = None, threads = ts\<rparr>)"

section \<open>Specification and proof vocabulary\<close>

text \<open>The pattern occurs at offset \<open>a\<close>: all its bytes are there, starting at \<open>a\<close>.\<close>

definition occurs_at :: "char list \<Rightarrow> char list \<Rightarrow> nat \<Rightarrow> bool" where
  "occurs_at buf pat a = (take (length pat) (drop a buf) = pat)"

text \<open>The single-threaded linear scan, in the words of the specification: test every offset
  of \<open>[0, len)\<close> for an exact byte-wise match of the pattern beginning there, and count the
  matches. The ground truth for a buffer is the scan of its data, \<open>contents\<close>.\<close>

definition linear_scan :: "char list \<Rightarrow> nat \<Rightarrow> char list \<Rightarrow> nat" where
  "linear_scan buf len pat = length (filter (occurs_at buf pat) [0..<len])"

text \<open>The log of probing a list of start offsets, one after the other.\<close>

fun probe_offsets :: "char list \<Rightarrow> char list \<Rightarrow> nat list \<Rightarrow> failure + probe list" where
  "probe_offsets mem pat [] = Inr []"
| "probe_offsets mem pat (a # as) =
     (case strncmp mem a pat 0 (strlen pat) of
        Inl e \<Rightarrow> Inl e
      | Inr rk \<Rightarrow>
          (case probe_offsets mem pat as of
             Inl e \<Rightarrow> Inl e
           | Inr l \<Rightarrow> Inr ((a, snd rk, fst rk = 0) # l)))"

text \<open>In verbose mode a match can be printed: \<open>clamp\<close> finds proper bounds.\<close>

definition can_report :: "globals \<Rightarrow> bool" where
  "can_report g \<longleftrightarrow> (verbose g \<longrightarrow> 0 < cur_length (fasta g))"

text \<open>The offsets a log reports as matches.\<close>

definition hits :: "probe list \<Rightarrow> nat list" where
  "hits l = map fst (filter (\<lambda>p. snd (snd p)) l)"

text \<open>The globals after the results of a log are added to the two shared counters.\<close>

definition add_counts :: "globals \<Rightarrow> probe list \<Rightarrow> globals" where
  "add_counts g l = g\<lparr>match_count := match_count g + int (length (hits l)),
                       trial_count := trial_count g + int (length l)\<rparr>"

text \<open>A thread is between lock and unlock; what a thread has stored so far.\<close>

definition critical :: "pc \<Rightarrow> bool" where
  "critical p = (p \<noteq> AtLock \<and> p \<noteq> Finished)"

definition merged_match :: "thread \<Rightarrow> int" where
  "merged_match t =
     (if pc t = LoadTrial \<or> pc t = StoreTrial \<or> pc t = AtUnlock \<or> pc t = Finished
      then local_count t else 0)"

definition merged_trial :: "thread \<Rightarrow> int" where
  "merged_trial t = (if pc t = AtUnlock \<or> pc t = Finished then local_trial t else 0)"

text \<open>The number of steps a thread still has to take, and their sum over the threads.\<close>

definition remaining :: "pc \<Rightarrow> nat" where
  "remaining p = (case p of AtLock \<Rightarrow> 6 | LoadMatch \<Rightarrow> 5 | StoreMatch \<Rightarrow> 4 | LoadTrial \<Rightarrow> 3
     | StoreTrial \<Rightarrow> 2 | AtUnlock \<Rightarrow> 1 | Finished \<Rightarrow> 0)"

text \<open>Invariant of the interleavings: a thread is between lock and unlock exactly when it
  holds the mutex; the shared counters hold the initial values plus the local results
  already stored; a loaded register is still current.\<close>

definition merge_inv :: "int \<Rightarrow> int \<Rightarrow> conc \<Rightarrow> bool" where
  "merge_inv m0 t0 s \<longleftrightarrow>
     (\<forall>i<length (threads s). critical (pc (threads s ! i)) \<longleftrightarrow> holder s = Some i) \<and>
     (\<forall>i. holder s = Some i \<longrightarrow> i < length (threads s)) \<and>
     match_count (shared s) = m0 + sum_list (map merged_match (threads s)) \<and>
     trial_count (shared s) = t0 + sum_list (map merged_trial (threads s)) \<and>
     (\<forall>i<length (threads s). pc (threads s ! i) = StoreMatch \<longrightarrow>
         tmp (threads s ! i) = match_count (shared s)) \<and>
     (\<forall>i<length (threads s). pc (threads s ! i) = StoreTrial \<longrightarrow>
         tmp (threads s ! i) = trial_count (shared s))"

definition steps_left :: "conc \<Rightarrow> nat" where
  "steps_left s = sum_list (map (\<lambda>t. remaining (pc t)) (threads s))"

text \<open>An example buffer: 12 bytes of data in a block of 16, the last 4 never written.\<close>

definition example_block :: fasta_t where
  "example_block =
     \<lparr>sequence = ''AACGTACGTACG????'', seq_ptr = 12, max_length = 16, cur_length = 12\<rparr>"

text \<open>The state of the buffer between two lines of a file: the write cursor is at the end of
  the data, the block has the allocated length, and at least \<open>line_buffer_length\<close> bytes are
  free. The capacity check leaves this state behind whenever it passes.\<close>

definition fasta_ok :: "fasta_t \<Rightarrow> bool" where
  "fasta_ok f \<longleftrightarrow>
     seq_ptr f = cur_length f \<and> length (sequence f) = nat (max_length f)
     \<and> int (cur_length f) + int line_buffer_length \<le> max_length f"

text \<open>A text file as the list of its lines (without the newlines), the lines the loop skips,
  and the data bytes of the file.\<close>

definition is_annotation :: "char list \<Rightarrow> bool" where
  "is_annotation l = (take 1 l = ''>'')"

definition file_text :: "char list list \<Rightarrow> char list" where
  "file_text ls = concat (map (\<lambda>l. l @ [newline]) ls)"

definition payload :: "char list list \<Rightarrow> char list" where
  "payload ls = concat (filter (\<lambda>l. \<not> is_annotation l) ls)"

text \<open>The data held by the buffer, and the buffer after \<open>d\<close> is appended at the cursor.\<close>

definition contents :: "fasta_t \<Rightarrow> char list" where
  "contents f = take (cur_length f) (sequence f)"

definition appended :: "fasta_t \<Rightarrow> char list \<Rightarrow> fasta_t" where
  "appended f d =
     f\<lparr>sequence := take (seq_ptr f) (sequence f) @ d @ drop (seq_ptr f + length d) (sequence f),
       seq_ptr := seq_ptr f + length d,
       cur_length := cur_length f + length d\<rparr>"

section \<open>The scan loop, offset by offset\<close>

declare scan_loop.simps [simp del] spawn_loop.simps [simp del]

lemma strncmp_failure: "strncmp mem a s2 j n = Inl e \<Longrightarrow> e = OutOfBoundsRead"
  by (induction n arbitrary: j) (auto split: if_splits)

lemma probe_offsets_failure: "probe_offsets mem pat as = Inl e \<Longrightarrow> e = OutOfBoundsRead"
  by (induction as arbitrary: e) (auto split: sum.splits dest: strncmp_failure)

lemma clamp_range: "clamp val low high = Inr r \<Longrightarrow> low \<le> r \<and> r \<le> high"
  by (auto simp: clamp_def split: if_splits)

lemma bytes_around_in_data:
  "bytes_around f current len = Inr (first_p, last_p) \<Longrightarrow>
   0 \<le> first_p \<and> last_p \<le> int (cur_length f)"
  by (auto simp: bytes_around_def split: sum.splits dest: clamp_range)

lemma bytes_around_failure: "bytes_around f current len = Inl e \<Longrightarrow> e = BogusBounds"
  by (auto simp: bytes_around_def clamp_def split: sum.splits if_splits)

lemma bytes_around_returns:
  "0 < cur_length f \<Longrightarrow> \<exists>r. bytes_around f current len = Inr r"
  by (simp add: bytes_around_def clamp_def)

lemma scan_loop_empty:
  "last_loc < int cur \<Longrightarrow> scan_loop v f pat n last_loc cur lc lt log = Inr (lc, lt, log)"
  by (simp add: scan_loop.simps [of v f pat n last_loc cur])

lemma scan_loop_probe_offsets:
  assumes "v \<longrightarrow> 0 < cur_length f"
  shows "scan_loop v f pat (strlen pat) last_loc cur lc lt log =
     (case probe_offsets (sequence f) pat [cur..<nat (last_loc + 1)] of
        Inl e \<Rightarrow> Inl e
      | Inr l \<Rightarrow> Inr (lc + int (length (hits l)), lt + int (length l), log @ l))"
proof (induction "nat (last_loc + 1 - int cur)" arbitrary: cur lc lt log)
  case 0
  then have "last_loc < int cur" by simp
  moreover from this have "[cur..<nat (last_loc + 1)] = []" by simp
  ultimately show ?case
    by (simp add: scan_loop_empty hits_def)
next
  case (Suc k)
  then have le: "int cur \<le> last_loc" by simp
  then have upt: "[cur..<nat (last_loc + 1)] = cur # [Suc cur..<nat (last_loc + 1)]"
    by (intro upt_conv_Cons) linarith
  from Suc have k: "k = nat (last_loc + 1 - int (Suc cur))" by simp
  obtain r where r: "(if v then bytes_around f cur (strlen pat) else Inr (0, 0)) = Inr r"
    using assms bytes_around_returns [of f cur "strlen pat"] by (cases v) auto
  show ?case
  proof (cases "strncmp (sequence f) cur pat 0 (strlen pat)")
    case (Inl e)
    with le show ?thesis
      by (simp add: scan_loop.simps [of v f pat "strlen pat" last_loc cur] upt)
  next
    case (Inr rk)
    show ?thesis
    proof (cases "fst rk = 0")
      case True
      have "scan_loop v f pat (strlen pat) last_loc cur lc lt log =
          scan_loop v f pat (strlen pat) last_loc (Suc cur) (lc + 1) (lt + 1)
            (log @ [(cur, snd rk, True)])"
        using le Inr True r
        by (subst scan_loop.simps) simp
      with Inr True Suc.hyps(1) [OF k] show ?thesis
        by (simp add: upt hits_def split: sum.splits)
    next
      case False
      have "scan_loop v f pat (strlen pat) last_loc cur lc lt log =
          scan_loop v f pat (strlen pat) last_loc (Suc cur) lc (lt + 1)
            (log @ [(cur, snd rk, False)])"
        using le Inr False
        by (subst scan_loop.simps) simp
      with Inr False Suc.hyps(1) [OF k] show ?thesis
        by (simp add: upt hits_def split: sum.splits)
    qed
  qed
qed

lemma scan_loop_failure:
  "scan_loop v f pat n last_loc cur lc lt log = Inl e \<Longrightarrow>
   e = OutOfBoundsRead \<or> e = BogusBounds"
proof (induction "nat (last_loc + 1 - int cur)" arbitrary: cur lc lt log)
  case 0
  then have "last_loc < int cur" by simp
  with "0.prems" show ?case by (simp add: scan_loop_empty)
next
  case (Suc k)
  then have le: "int cur \<le> last_loc" by simp
  from Suc have k: "k = nat (last_loc + 1 - int (Suc cur))" by simp
  note step = Suc.prems [unfolded scan_loop.simps [of v f pat n last_loc cur]]
  show ?case
  proof (cases "strncmp (sequence f) cur pat 0 n")
    case (Inl e')
    with step le strncmp_failure [OF Inl] show ?thesis by simp
  next
    case (Inr rk)
    show ?thesis
    proof (cases "fst rk = 0")
      case True
      show ?thesis
      proof (cases "if v then bytes_around f cur n else Inr (0, 0)")
        case (Inl e')
        with step le Inr True have "e = e'" by simp
        with Inl bytes_around_failure [of f cur n e'] show ?thesis
          by (simp split: if_splits)
      next
        case shown: (Inr r)
        with step le Inr True Suc.hyps(1) [OF k] show ?thesis by simp
      qed
    next
      case False
      with step le Inr Suc.hyps(1) [OF k] show ?thesis by simp
    qed
  qed
qed

lemma probe_offsets_append:
  "probe_offsets mem pat (as @ bs) =
     (case probe_offsets mem pat as of
        Inl e \<Rightarrow> Inl OutOfBoundsRead
      | Inr l \<Rightarrow> (case probe_offsets mem pat bs of Inl e \<Rightarrow> Inl OutOfBoundsRead | Inr l' \<Rightarrow> Inr (l @ l')))"
  by (induction as) (auto split: sum.splits dest: strncmp_failure probe_offsets_failure)

lemma probe_offsets_fst: "probe_offsets mem pat as = Inr l \<Longrightarrow> map fst l = as"
  by (induction as arbitrary: l) (auto split: sum.splits)

lemma strlen_no_NUL: "NUL \<notin> set s \<Longrightarrow> strlen s = length s"
proof -
  assume "NUL \<notin> set s"
  then have "takeWhile (\<lambda>c. c \<noteq> NUL) s = s"
    by auto
  then show ?thesis unfolding strlen_def by (rule arg_cong)
qed

lemma occurs_at_nth:
  "occurs_at buf pat a \<longleftrightarrow>
     length pat \<le> length buf - a \<and> (\<forall>i<length pat. buf ! (a + i) = pat ! i)"
  by (auto simp: occurs_at_def list_eq_iff_nth_eq min_def)

lemma strncmp_returns:
  "a + j + n \<le> length mem \<Longrightarrow> \<exists>rk. strncmp mem a s2 j n = Inr rk"
  by (induction n arbitrary: j) auto

lemma strncmp_result:
  assumes "NUL \<notin> set pat" "j + n \<le> length pat" "strncmp mem a pat j n = Inr (r, k)"
  shows "(r = 0 \<longleftrightarrow> (\<forall>i. j \<le> i \<and> i < j + n \<longrightarrow> a + i < length mem \<and> mem ! (a + i) = pat ! i))
         \<and> j \<le> k \<and> k \<le> j + n \<and> (a + j \<le> length mem \<longrightarrow> a + k \<le> length mem)"
  using assms
proof (induction n arbitrary: j)
  case 0
  then show ?case by auto
next
  case (Suc n)
  from Suc.prems have j: "j < length pat" by simp
  with Suc.prems(1) have nz: "pat ! j \<noteq> NUL" by (metis nth_mem)
  from Suc.prems(3) have inb: "a + j < length mem" by (auto split: if_splits)
  show ?case
  proof (cases "mem ! (a + j) = pat ! j")
    case True
    with Suc.prems j nz inb have rec: "strncmp mem a pat (Suc j) n = Inr (r, k)"
      by (simp add: c_str_at_def)
    from Suc.prems have "Suc j + n \<le> length pat" by simp
    from Suc.IH [OF Suc.prems(1) this rec] inb
    have ih: "(r = 0) = (\<forall>i. Suc j \<le> i \<and> i < Suc j + n \<longrightarrow> a + i < length mem \<and> mem ! (a + i) = pat ! i)"
      and k: "Suc j \<le> k" "k \<le> Suc j + n" "a + k \<le> length mem"
      by auto
    have "(\<forall>i. j \<le> i \<and> i < j + Suc n \<longrightarrow> a + i < length mem \<and> mem ! (a + i) = pat ! i)
      \<longleftrightarrow> (\<forall>i. Suc j \<le> i \<and> i < Suc j + n \<longrightarrow> a + i < length mem \<and> mem ! (a + i) = pat ! i)"
    proof (intro iffI allI impI)
      fix i
      assume "\<forall>i. j \<le> i \<and> i < j + Suc n \<longrightarrow> a + i < length mem \<and> mem ! (a + i) = pat ! i"
        and "Suc j \<le> i \<and> i < Suc j + n"
      then show "a + i < length mem \<and> mem ! (a + i) = pat ! i" by simp
    next
      fix i
      assume h: "\<forall>i. Suc j \<le> i \<and> i < Suc j + n \<longrightarrow> a + i < length mem \<and> mem ! (a + i) = pat ! i"
        and i: "j \<le> i \<and> i < j + Suc n"
      show "a + i < length mem \<and> mem ! (a + i) = pat ! i"
      proof (cases "i = j")
        case True
        with \<open>mem ! (a + j) = pat ! j\<close> inb show ?thesis by simp
      next
        case False
        with i have "Suc j \<le> i \<and> i < Suc j + n" by simp
        with h show ?thesis by blast
      qed
    qed
    with ih k show ?thesis by simp
  next
    case False
    with Suc.prems j inb have rk: "r = of_char (mem ! (a + j)) - of_char (pat ! j)" "k = Suc j"
      by (auto simp: c_str_at_def)
    from False have "(of_char (mem ! (a + j)) :: int) \<noteq> of_char (pat ! j)"
      by simp
    with rk have "r \<noteq> 0" by simp
    moreover have "\<not> (\<forall>i. j \<le> i \<and> i < j + Suc n \<longrightarrow> a + i < length mem \<and> mem ! (a + i) = pat ! i)"
      using False by (auto intro: exI [of _ j])
    ultimately show ?thesis using rk inb by simp
  qed
qed

lemma strncmp_occurs_at:
  assumes "NUL \<notin> set pat" "strncmp mem a pat 0 (strlen pat) = Inr rk"
  shows "fst rk = 0 \<longleftrightarrow> occurs_at mem pat a"
proof -
  obtain r k where rk: "rk = (r, k)" by (cases rk)
  from assms have s: "strncmp mem a pat 0 (length pat) = Inr (r, k)"
    by (simp add: strlen_no_NUL rk)
  from strncmp_result [OF assms(1) _ s]
  have r: "r = 0 \<longleftrightarrow> (\<forall>i<length pat. a + i < length mem \<and> mem ! (a + i) = pat ! i)"
    by simp
  show ?thesis
  proof (cases "pat = []")
    case True
    with r show ?thesis by (simp add: rk occurs_at_def)
  next
    case False
    then have "0 < length pat" by simp
    then have "(\<forall>i<length pat. a + i < length mem) \<longleftrightarrow> length pat \<le> length mem - a"
    proof (intro iffI allI impI)
      assume "0 < length pat" and h: "\<forall>i<length pat. a + i < length mem"
      then have "a + (length pat - 1) < length mem" by simp
      with \<open>0 < length pat\<close> show "length pat \<le> length mem - a" by simp
    next
      fix i assume "length pat \<le> length mem - a" "i < length pat" "0 < length pat"
      then show "a + i < length mem" by simp
    qed
    with r show ?thesis by (auto simp: rk occurs_at_nth)
  qed
qed

lemma probe_offsets_hits:
  "NUL \<notin> set pat \<Longrightarrow> probe_offsets mem pat as = Inr l \<Longrightarrow> hits l = filter (occurs_at mem pat) as"
  by (induction as arbitrary: l) (auto simp: hits_def split: sum.splits dest: strncmp_occurs_at)

lemma probe_offsets_returns:
  "\<forall>a\<in>set as. a + strlen pat \<le> length mem \<Longrightarrow> \<exists>l. probe_offsets mem pat as = Inr l"
proof (induction as)
  case Nil
  then show ?case by simp
next
  case (Cons a as)
  then obtain l where "probe_offsets mem pat as = Inr l" by auto
  moreover from Cons.prems obtain rk where "strncmp mem a pat 0 (strlen pat) = Inr rk"
    using strncmp_returns [of a 0 "strlen pat" mem pat] by auto
  ultimately show ?case by simp
qed

lemma spawn_loop_map:
  "0 \<le> chunk \<Longrightarrow>
   spawn_loop i n match_ptr chunk = map (\<lambda>k. match_ptr + k * nat chunk) [0..<nat (n - i)]"
proof (induction "nat (n - i)" arbitrary: i match_ptr)
  case 0
  then show ?case by (simp add: spawn_loop.simps [of i n])
next
  case (Suc m)
  then have lt: "i < n" and m: "m = nat (n - (i + 1))" by simp_all
  from Suc.hyps(2) have eq: "nat (n - i) = Suc m" by simp
  have "spawn_loop i n match_ptr chunk =
          match_ptr # spawn_loop (i + 1) n (nat (int match_ptr + chunk)) chunk"
    using lt by (simp add: spawn_loop.simps [of i n])
  also have "spawn_loop (i + 1) n (nat (int match_ptr + chunk)) chunk =
          map (\<lambda>k. nat (int match_ptr + chunk) + k * nat chunk) [0..<m]"
    using Suc.hyps(1) [OF m Suc.prems] m by simp
  also have "nat (int match_ptr + chunk) = match_ptr + nat chunk"
    using Suc.prems by (simp add: nat_add_distrib)
  finally show ?case
    by (simp add: eq map_upt_Suc del: upt_Suc)
qed

lemma scan_chunk_probe_offsets:
  assumes "0 \<le> chunk_size g" "can_report g \<or> chunk_size g = 0"
  shows "scan_chunk g ptr =
     (case probe_offsets (sequence (fasta g)) (pattern g) [ptr..<ptr + nat (chunk_size g)] of
        Inl e \<Rightarrow> Inl e
      | Inr l \<Rightarrow> Inr (int (length (hits l)), int (length l), l))"
proof (cases "chunk_size g = 0")
  case True
  then show ?thesis by (simp add: scan_chunk_def scan_loop_empty hits_def)
next
  case False
  with assms(2) have v: "verbose g \<longrightarrow> 0 < cur_length (fasta g)" by (simp add: can_report_def)
  from assms(1) have "nat (int ptr + chunk_size g - 1 + 1) = ptr + nat (chunk_size g)"
    by (simp add: nat_add_distrib)
  then show ?thesis
    by (simp add: scan_chunk_def scan_loop_probe_offsets [OF v] split: sum.splits)
qed

lemma parallel_match_probe_offsets:
  assumes "0 \<le> chunk_size g" "can_report g \<or> chunk_size g = 0"
  shows "parallel_match g ptr =
     (case probe_offsets (sequence (fasta g)) (pattern g) [ptr..<ptr + nat (chunk_size g)] of
        Inl e \<Rightarrow> Inl e
      | Inr l \<Rightarrow> Inr (add_counts g l))"
  by (simp add: parallel_match_def scan_chunk_probe_offsets [OF assms] add_counts_def
      split: sum.splits)

lemma add_counts_fields [simp]:
  "fasta (add_counts g l) = fasta g" "pattern (add_counts g l) = pattern g"
  "chunk_size (add_counts g l) = chunk_size g" "num_threads (add_counts g l) = num_threads g"
  "verbose (add_counts g l) = verbose g"
  "match_count (add_counts g l) = match_count g + int (length (hits l))"
  "trial_count (add_counts g l) = trial_count g + int (length l)"
  by (simp_all add: add_counts_def)

lemma add_counts_append: "add_counts (add_counts g l) l' = add_counts g (l @ l')"
  by (simp add: add_counts_def hits_def)

lemma add_counts_Nil [simp]: "add_counts g [] = g"
  by (simp add: add_counts_def hits_def)

lemma can_report_add_counts [simp]: "can_report (add_counts g l) = can_report g"
  by (simp add: can_report_def)

lemma run_threads_probe_offsets:
  "0 \<le> chunk_size g \<Longrightarrow> can_report g \<or> chunk_size g = 0 \<Longrightarrow>
   run_threads g (map (\<lambda>k. s + k * nat (chunk_size g)) [0..<w]) =
     (case probe_offsets (sequence (fasta g)) (pattern g) [s..<s + w * nat (chunk_size g)] of
        Inl e \<Rightarrow> Inl e
      | Inr l \<Rightarrow> Inr (add_counts g l))"
proof (induction w arbitrary: s g)
  case 0
  then show ?case by simp
next
  case (Suc w)
  let ?c = "nat (chunk_size g)"
  have split: "[s..<s + Suc w * ?c] = [s..<s + ?c] @ [s + ?c..<s + ?c + w * ?c]"
    using upt_add_eq_append [of s "s + ?c" "w * ?c"] by (simp add: add.assoc)
  have ptrs: "map (\<lambda>k. s + k * ?c) [0..<Suc w] = s # map (\<lambda>k. (s + ?c) + k * ?c) [0..<w]"
    by (simp add: map_upt_Suc add.assoc del: upt_Suc)
  show ?case
  proof (cases "probe_offsets (sequence (fasta g)) (pattern g) [s..<s + ?c]")
    case (Inl e)
    then show ?thesis
      unfolding ptrs split
      by (simp add: parallel_match_probe_offsets [OF Suc.prems] probe_offsets_append
          probe_offsets_failure)
  next
    case (Inr l)
    have c': "0 \<le> chunk_size (add_counts g l)"
      "can_report (add_counts g l) \<or> chunk_size (add_counts g l) = 0"
      using Suc.prems by simp_all
    show ?thesis
      unfolding ptrs split
      using Inr Suc.IH [OF c', of "s + ?c"]
      by (auto simp: parallel_match_probe_offsets [OF Suc.prems] probe_offsets_append
          add_counts_append split: sum.splits dest: probe_offsets_failure)
  qed
qed

lemma c_div_nonneg: "0 \<le> a \<Longrightarrow> 0 < b \<Longrightarrow> c_div a b = a div b"
  by (cases "a = 0") (simp_all add: c_div_def)

lemma scan_phase_probe_offsets:
  assumes "0 < num_threads g"
  shows "scan_phase g =
     (case probe_offsets (sequence (fasta g)) (pattern g)
             [0..<nat (num_threads g) * (cur_length (fasta g) div nat (num_threads g))] of
        Inl e \<Rightarrow> Inl e
      | Inr l \<Rightarrow> Inr (add_counts
            (g\<lparr>chunk_size := int (cur_length (fasta g) div nat (num_threads g))\<rparr>) l))"
proof -
  let ?w = "nat (num_threads g)" and ?L = "cur_length (fasta g)"
  let ?g1 = "g\<lparr>chunk_size := int (?L div ?w)\<rparr>"
  have c: "c_div (int ?L) (num_threads g) = int (?L div ?w)"
    using assms by (simp add: c_div_nonneg zdiv_int)
  have "0 < ?L \<or> ?L div ?w = 0" by (cases "?L = 0") simp_all
  then have nn: "0 \<le> chunk_size ?g1" "can_report ?g1 \<or> chunk_size ?g1 = 0"
    by (auto simp: can_report_def)
  have "scan_phase g = run_threads ?g1 (spawn_loop 0 (num_threads g) 0 (int (?L div ?w)))"
    using assms by (simp add: scan_phase_def c Let_def)
  also have "spawn_loop 0 (num_threads g) 0 (int (?L div ?w))
        = map (\<lambda>k. 0 + k * nat (chunk_size ?g1)) [0..<?w]"
    by (simp add: spawn_loop_map)
  finally show ?thesis
    using run_threads_probe_offsets [OF nn, of 0 ?w] by simp
qed

section \<open>Every interleaving merges every local result once\<close>

lemma sum_list_map_update:
  fixes f :: "'a \<Rightarrow> int"
  shows "i < length xs \<Longrightarrow> sum_list (map f (xs[i := y])) = sum_list (map f xs) - f (xs ! i) + f y"
  by (induction xs arbitrary: i) (auto split: nat.splits)

lemma thread_step_bound: "thread_step i s = Some s' \<Longrightarrow> i < length (threads s)"
  by (simp add: thread_step_def split: if_splits)

lemma thread_step_AtLock:
  "i < length (threads s) \<Longrightarrow> pc (threads s ! i) = AtLock \<Longrightarrow>
   thread_step i s =
     (if holder s = None
      then Some (s\<lparr>holder := Some i, threads := (threads s)[i := (threads s ! i)\<lparr>pc := LoadMatch\<rparr>]\<rparr>)
      else None)"
  by (simp add: thread_step_def Let_def)

lemma thread_step_LoadMatch:
  "i < length (threads s) \<Longrightarrow> pc (threads s ! i) = LoadMatch \<Longrightarrow>
   thread_step i s =
     Some (s\<lparr>threads := (threads s)[i := (threads s ! i)\<lparr>pc := StoreMatch, tmp := match_count (shared s)\<rparr>]\<rparr>)"
  by (simp add: thread_step_def Let_def)

lemma thread_step_StoreMatch:
  "i < length (threads s) \<Longrightarrow> pc (threads s ! i) = StoreMatch \<Longrightarrow>
   thread_step i s =
     Some (s\<lparr>shared := (shared s)\<lparr>match_count := tmp (threads s ! i) + local_count (threads s ! i)\<rparr>,
             threads := (threads s)[i := (threads s ! i)\<lparr>pc := LoadTrial\<rparr>]\<rparr>)"
  by (simp add: thread_step_def Let_def)

lemma thread_step_LoadTrial:
  "i < length (threads s) \<Longrightarrow> pc (threads s ! i) = LoadTrial \<Longrightarrow>
   thread_step i s =
     Some (s\<lparr>threads := (threads s)[i := (threads s ! i)\<lparr>pc := StoreTrial, tmp := trial_count (shared s)\<rparr>]\<rparr>)"
  by (simp add: thread_step_def Let_def)

lemma thread_step_StoreTrial:
  "i < length (threads s) \<Longrightarrow> pc (threads s ! i) = StoreTrial \<Longrightarrow>
   thread_step i s =
     Some (s\<lparr>shared := (shared s)\<lparr>trial_count := tmp (threads s ! i) + local_trial (threads s ! i)\<rparr>,
             threads := (threads s)[i := (threads s ! i)\<lparr>pc := AtUnlock\<rparr>]\<rparr>)"
  by (simp add: thread_step_def Let_def)

lemma thread_step_AtUnlock:
  "i < length (threads s) \<Longrightarrow> pc (threads s ! i) = AtUnlock \<Longrightarrow>
   thread_step i s =
     Some (s\<lparr>holder := None, threads := (threads s)[i := (threads s ! i)\<lparr>pc := Finished\<rparr>]\<rparr>)"
  by (simp add: thread_step_def Let_def)

lemma thread_step_Finished:
  "pc (threads s ! i) = Finished \<Longrightarrow> thread_step i s = None"
  by (simp add: thread_step_def Let_def)

lemma merge_inv_holder:
  "merge_inv m0 t0 s \<Longrightarrow> i < length (threads s) \<Longrightarrow>
   critical (pc (threads s ! i)) \<longleftrightarrow> holder s = Some i"
  by (simp add: merge_inv_def)

lemma merge_inv_others:
  assumes "merge_inv m0 t0 s" "thread_step i s = Some s'"
  shows "\<forall>j<length (threads s). j \<noteq> i \<longrightarrow> \<not> critical (pc (threads s ! j))"
proof -
  note i = thread_step_bound [OF assms(2)]
  have "holder s = None \<or> holder s = Some i"
  proof (cases "pc (threads s ! i) = AtLock")
    case True
    with assms(2) i show ?thesis
      by (simp add: thread_step_AtLock split: if_splits)
  next
    case False
    moreover from assms(2) have "pc (threads s ! i) \<noteq> Finished"
      by (auto simp: thread_step_Finished)
    ultimately have "critical (pc (threads s ! i))" by (simp add: critical_def)
    with merge_inv_holder [OF assms(1) i] show ?thesis by simp
  qed
  then show ?thesis
    using merge_inv_holder [OF assms(1)] by auto
qed

lemma merge_inv_update:
  assumes inv: "merge_inv m0 t0 s"
    and i: "i < length (threads s)"
    and others: "\<forall>j<length (threads s). j \<noteq> i \<longrightarrow> \<not> critical (pc (threads s ! j))"
    and ts: "threads s' = (threads s)[i := t']"
    and h: "critical (pc t') \<longleftrightarrow> holder s' = Some i" "holder s' = None \<or> holder s' = Some i"
    and m: "match_count (shared s') =
              match_count (shared s) - merged_match (threads s ! i) + merged_match t'"
    and t: "trial_count (shared s') =
              trial_count (shared s) - merged_trial (threads s ! i) + merged_trial t'"
    and rm: "pc t' = StoreMatch \<longrightarrow> tmp t' = match_count (shared s')"
    and rt: "pc t' = StoreTrial \<longrightarrow> tmp t' = trial_count (shared s')"
  shows "merge_inv m0 t0 s'"
proof -
  let ?ts = "(threads s)[i := t']"
  have c1: "\<forall>j<length ?ts. critical (pc (?ts ! j)) \<longleftrightarrow> holder s' = Some j"
  proof (intro allI impI)
    fix j assume j: "j < length ?ts"
    show "critical (pc (?ts ! j)) \<longleftrightarrow> holder s' = Some j"
    proof (cases "j = i")
      case True
      with i h(1) show ?thesis by simp
    next
      case False
      with j others h(2) show ?thesis by auto
    qed
  qed
  have c2: "match_count (shared s') = m0 + sum_list (map merged_match ?ts)"
    using inv i m by (simp add: merge_inv_def sum_list_map_update)
  have c3: "trial_count (shared s') = t0 + sum_list (map merged_trial ?ts)"
    using inv i t by (simp add: merge_inv_def sum_list_map_update)
  have c4: "\<forall>j<length ?ts. pc (?ts ! j) = StoreMatch \<longrightarrow> tmp (?ts ! j) = match_count (shared s')"
  proof (intro allI impI)
    fix j assume j: "j < length ?ts" and p: "pc (?ts ! j) = StoreMatch"
    show "tmp (?ts ! j) = match_count (shared s')"
    proof (cases "j = i")
      case True
      with i rm p show ?thesis by simp
    next
      case False
      with j others p show ?thesis by (auto simp: critical_def)
    qed
  qed
  have c5: "\<forall>j<length ?ts. pc (?ts ! j) = StoreTrial \<longrightarrow> tmp (?ts ! j) = trial_count (shared s')"
  proof (intro allI impI)
    fix j assume j: "j < length ?ts" and p: "pc (?ts ! j) = StoreTrial"
    show "tmp (?ts ! j) = trial_count (shared s')"
    proof (cases "j = i")
      case True
      with i rt p show ?thesis by simp
    next
      case False
      with j others p show ?thesis by (auto simp: critical_def)
    qed
  qed
  have c6: "\<forall>j. holder s' = Some j \<longrightarrow> j < length ?ts"
    using h(2) i by auto
  from c1 c2 c3 c4 c5 c6 show ?thesis
    unfolding merge_inv_def ts by blast
qed

lemma merge_inv_step:
  assumes "merge_inv m0 t0 s" "thread_step i s = Some s'"
  shows "merge_inv m0 t0 s'"
proof -
  note others = merge_inv_others [OF assms]
  note i = thread_step_bound [OF assms(2)]
  note upd = merge_inv_update [OF assms(1) i others]
  from assms(1) i have
    rm: "pc (threads s ! i) = StoreMatch \<Longrightarrow> tmp (threads s ! i) = match_count (shared s)" and
    rt: "pc (threads s ! i) = StoreTrial \<Longrightarrow> tmp (threads s ! i) = trial_count (shared s)"
    by (simp_all add: merge_inv_def)
  have hs: "critical (pc (threads s ! i)) \<Longrightarrow> holder s = Some i"
    using merge_inv_holder [OF assms(1) i] by simp
  show ?thesis
  proof (cases "pc (threads s ! i)")
    case AtLock
    with assms(2) i have
      "s' = s\<lparr>holder := Some i, threads := (threads s)[i := (threads s ! i)\<lparr>pc := LoadMatch\<rparr>]\<rparr>"
      by (simp add: thread_step_AtLock split: if_splits)
    with AtLock show ?thesis
      by (intro upd [of _ "(threads s ! i)\<lparr>pc := LoadMatch\<rparr>"])
        (simp_all add: critical_def merged_match_def merged_trial_def)
  next
    case LoadMatch
    with assms(2) i have
      "s' = s\<lparr>threads := (threads s)[i := (threads s ! i)\<lparr>pc := StoreMatch, tmp := match_count (shared s)\<rparr>]\<rparr>"
      by (simp add: thread_step_LoadMatch)
    with LoadMatch hs show ?thesis
      by (intro upd [of _ "(threads s ! i)\<lparr>pc := StoreMatch, tmp := match_count (shared s)\<rparr>"])
        (simp_all add: critical_def merged_match_def merged_trial_def)
  next
    case StoreMatch
    with assms(2) i have
      "s' = s\<lparr>shared := (shared s)\<lparr>match_count := tmp (threads s ! i) + local_count (threads s ! i)\<rparr>,
             threads := (threads s)[i := (threads s ! i)\<lparr>pc := LoadTrial\<rparr>]\<rparr>"
      by (simp add: thread_step_StoreMatch)
    with StoreMatch hs rm show ?thesis
      by (intro upd [of _ "(threads s ! i)\<lparr>pc := LoadTrial\<rparr>"])
        (simp_all add: critical_def merged_match_def merged_trial_def)
  next
    case LoadTrial
    with assms(2) i have
      "s' = s\<lparr>threads := (threads s)[i := (threads s ! i)\<lparr>pc := StoreTrial, tmp := trial_count (shared s)\<rparr>]\<rparr>"
      by (simp add: thread_step_LoadTrial)
    with LoadTrial hs show ?thesis
      by (intro upd [of _ "(threads s ! i)\<lparr>pc := StoreTrial, tmp := trial_count (shared s)\<rparr>"])
        (simp_all add: critical_def merged_match_def merged_trial_def)
  next
    case StoreTrial
    with assms(2) i have
      "s' = s\<lparr>shared := (shared s)\<lparr>trial_count := tmp (threads s ! i) + local_trial (threads s ! i)\<rparr>,
             threads := (threads s)[i := (threads s ! i)\<lparr>pc := AtUnlock\<rparr>]\<rparr>"
      by (simp add: thread_step_StoreTrial)
    with StoreTrial hs rt show ?thesis
      by (intro upd [of _ "(threads s ! i)\<lparr>pc := AtUnlock\<rparr>"])
        (simp_all add: critical_def merged_match_def merged_trial_def)
  next
    case AtUnlock
    with assms(2) i have
      "s' = s\<lparr>holder := None, threads := (threads s)[i := (threads s ! i)\<lparr>pc := Finished\<rparr>]\<rparr>"
      by (simp add: thread_step_AtUnlock)
    with AtUnlock show ?thesis
      by (intro upd [of _ "(threads s ! i)\<lparr>pc := Finished\<rparr>"])
        (simp_all add: critical_def merged_match_def merged_trial_def)
  next
    case Finished
    with assms(2) show ?thesis by (simp add: thread_step_Finished)
  qed
qed

lemma merge_inv_run:
  "merge_inv m0 t0 s \<Longrightarrow> run_schedule sched s = Some s' \<Longrightarrow> merge_inv m0 t0 s'"
  by (induction sched arbitrary: s) (auto split: option.splits dest: merge_inv_step)

lemma thread_step_locals:
  assumes "thread_step i s = Some s'"
  shows "map local_count (threads s') = map local_count (threads s) \<and>
         map local_trial (threads s') = map local_trial (threads s)"
proof -
  note i = thread_step_bound [OF assms]
  have upd: "\<And>t'. local_count t' = local_count (threads s ! i) \<Longrightarrow>
      local_trial t' = local_trial (threads s ! i) \<Longrightarrow>
      map local_count ((threads s)[i := t']) = map local_count (threads s) \<and>
      map local_trial ((threads s)[i := t']) = map local_trial (threads s)"
    using i by (simp add: map_update list_update_same_conv)
  show ?thesis
  proof (cases "pc (threads s ! i)")
    case AtLock
    with assms i show ?thesis
      using upd [of "(threads s ! i)\<lparr>pc := LoadMatch\<rparr>"]
      by (auto simp: thread_step_AtLock split: if_splits)
  next
    case LoadMatch
    with assms i show ?thesis
      using upd [of "(threads s ! i)\<lparr>pc := StoreMatch, tmp := match_count (shared s)\<rparr>"]
      by (auto simp: thread_step_LoadMatch)
  next
    case StoreMatch
    with assms i show ?thesis
      using upd [of "(threads s ! i)\<lparr>pc := LoadTrial\<rparr>"]
      by (auto simp: thread_step_StoreMatch)
  next
    case LoadTrial
    with assms i show ?thesis
      using upd [of "(threads s ! i)\<lparr>pc := StoreTrial, tmp := trial_count (shared s)\<rparr>"]
      by (auto simp: thread_step_LoadTrial)
  next
    case StoreTrial
    with assms i show ?thesis
      using upd [of "(threads s ! i)\<lparr>pc := AtUnlock\<rparr>"]
      by (auto simp: thread_step_StoreTrial)
  next
    case AtUnlock
    with assms i show ?thesis
      using upd [of "(threads s ! i)\<lparr>pc := Finished\<rparr>"]
      by (auto simp: thread_step_AtUnlock)
  next
    case Finished
    with assms show ?thesis by (simp add: thread_step_Finished)
  qed
qed

lemma run_schedule_locals:
  "run_schedule sched s = Some s' \<Longrightarrow>
   map local_count (threads s') = map local_count (threads s) \<and>
   map local_trial (threads s') = map local_trial (threads s)"
proof (induction sched arbitrary: s)
  case Nil
  then show ?case by simp
next
  case (Cons i sched)
  then obtain s1 where "thread_step i s = Some s1" "run_schedule sched s1 = Some s'"
    by (auto split: option.splits)
  with Cons.IH [of s1] thread_step_locals [of i s s1] show ?case by simp
qed

lemma joined_sums:
  "list_all (\<lambda>t. pc t = Finished) ts \<Longrightarrow>
   sum_list (map merged_match ts) = sum_list (map local_count ts) \<and>
   sum_list (map merged_trial ts) = sum_list (map local_trial ts)"
  by (induction ts) (auto simp: merged_match_def merged_trial_def)

lemma merge_inv_joined:
  assumes "merge_inv m0 t0 s" "joined s"
  shows "match_count (shared s) = m0 + sum_list (map local_count (threads s)) \<and>
         trial_count (shared s) = t0 + sum_list (map local_trial (threads s))"
  using assms joined_sums [of "threads s"] by (simp add: merge_inv_def joined_def)

lemma merge_inv_exclusion:
  assumes "merge_inv m0 t0 s" "i < length (threads s)" "j < length (threads s)"
    "critical (pc (threads s ! i))" "critical (pc (threads s ! j))"
  shows "i = j"
  using assms merge_inv_holder [OF assms(1)] by auto

lemma scan_all_AtLock:
  "scan_all g ptrs = Inr ts \<Longrightarrow> list_all (\<lambda>t. pc t = AtLock) ts"
  by (induction ptrs arbitrary: ts) (auto split: sum.splits)

lemma AtLock_sums:
  "list_all (\<lambda>t. pc t = AtLock) ts \<Longrightarrow>
   sum_list (map merged_match ts) = 0 \<and> sum_list (map merged_trial ts) = 0"
  by (induction ts) (auto simp: merged_match_def merged_trial_def)

lemma fork_merge_inv:
  assumes "fork g ptrs = Inr s0"
  shows "merge_inv (match_count g) (trial_count g) s0 \<and> shared s0 = g"
proof -
  from assms obtain ts where ts: "scan_all g ptrs = Inr ts"
    and s0: "s0 = \<lparr>shared = g, holder = None, threads = ts\<rparr>"
    by (auto simp: fork_def split: sum.splits)
  note a = scan_all_AtLock [OF ts]
  then have "\<forall>i<length ts. pc (ts ! i) = AtLock" by (simp add: list_all_length)
  with AtLock_sums [OF a] show ?thesis
    by (simp add: merge_inv_def s0 critical_def)
qed

lemma sum_list_map_update_nat:
  fixes f :: "'a \<Rightarrow> nat"
  shows "i < length xs \<Longrightarrow>
    sum_list (map f (xs[i := y])) + f (xs ! i) = sum_list (map f xs) + f y"
  by (induction xs arbitrary: i) (auto split: nat.splits)

lemma thread_step_decreases:
  assumes "thread_step i s = Some s'"
  shows "steps_left s' < steps_left s"
proof -
  note i = thread_step_bound [OF assms]
  have upd: "steps_left s' < steps_left s"
    if a: "threads s' = (threads s)[i := t']"
      and b: "remaining (pc t') < remaining (pc (threads s ! i))" for t'
  proof -
    from sum_list_map_update_nat [OF i, of "\<lambda>t. remaining (pc t)" t']
    have "steps_left s' + remaining (pc (threads s ! i)) = steps_left s + remaining (pc t')"
      by (simp add: steps_left_def a)
    with b show ?thesis by linarith
  qed
  show ?thesis
  proof (cases "pc (threads s ! i)")
    case AtLock
    with assms i show ?thesis
      by (intro upd [of "(threads s ! i)\<lparr>pc := LoadMatch\<rparr>"])
        (auto simp: thread_step_AtLock remaining_def split: if_splits)
  next
    case LoadMatch
    with assms i show ?thesis
      by (intro upd [of "(threads s ! i)\<lparr>pc := StoreMatch, tmp := match_count (shared s)\<rparr>"])
        (auto simp: thread_step_LoadMatch remaining_def)
  next
    case StoreMatch
    with assms i show ?thesis
      by (intro upd [of "(threads s ! i)\<lparr>pc := LoadTrial\<rparr>"])
        (auto simp: thread_step_StoreMatch remaining_def)
  next
    case LoadTrial
    with assms i show ?thesis
      by (intro upd [of "(threads s ! i)\<lparr>pc := StoreTrial, tmp := trial_count (shared s)\<rparr>"])
        (auto simp: thread_step_LoadTrial remaining_def)
  next
    case StoreTrial
    with assms i show ?thesis
      by (intro upd [of "(threads s ! i)\<lparr>pc := AtUnlock\<rparr>"])
        (auto simp: thread_step_StoreTrial remaining_def)
  next
    case AtUnlock
    with assms i show ?thesis
      by (intro upd [of "(threads s ! i)\<lparr>pc := Finished\<rparr>"])
        (auto simp: thread_step_AtUnlock remaining_def)
  next
    case Finished
    with assms show ?thesis by (simp add: thread_step_Finished)
  qed
qed

lemma merge_inv_progress:
  assumes "merge_inv m0 t0 s" "\<not> joined s"
  shows "\<exists>i s'. thread_step i s = Some s'"
proof (cases "holder s")
  case None
  from assms(2) obtain j where j: "j < length (threads s)" "pc (threads s ! j) \<noteq> Finished"
    by (auto simp: joined_def list_all_length)
  with merge_inv_holder [OF assms(1) j(1)] None have "pc (threads s ! j) = AtLock"
    by (simp add: critical_def)
  with j None have "thread_step j s \<noteq> None" by (simp add: thread_step_AtLock)
  then show ?thesis by blast
next
  case (Some i)
  with assms(1) have i: "i < length (threads s)" by (simp add: merge_inv_def)
  with merge_inv_holder [OF assms(1) i] Some have "critical (pc (threads s ! i))" by simp
  then have "thread_step i s \<noteq> None"
    using i
    by (cases "pc (threads s ! i)")
      (simp_all add: critical_def thread_step_LoadMatch thread_step_StoreMatch
        thread_step_LoadTrial thread_step_StoreTrial thread_step_AtUnlock)
  then show ?thesis by blast
qed

lemma merge_inv_completes:
  "merge_inv m0 t0 s \<Longrightarrow> \<exists>sched s'. run_schedule sched s = Some s' \<and> joined s'"
proof (induction "steps_left s" arbitrary: s rule: less_induct)
  case less
  show ?case
  proof (cases "joined s")
    case True
    then have "run_schedule [] s = Some s \<and> joined s" by simp
    then show ?thesis by blast
  next
    case False
    from merge_inv_progress [OF less.prems False] obtain i s1
      where st: "thread_step i s = Some s1" by blast
    from less.hyps [OF thread_step_decreases [OF st] merge_inv_step [OF less.prems st]]
    obtain sched s' where "run_schedule sched s1 = Some s'" "joined s'" by blast
    with st have "run_schedule (i # sched) s = Some s' \<and> joined s'" by simp
    then show ?thesis by blast
  qed
qed

section \<open>Claims about the scan phase\<close>

text \<open>
  C1. The claim compares the aggregated match count of the workers with a single-threaded
  linear scan of the buffer, for a length that the worker count divides. The code departs
  from it at the end of the data: the last worker tests every start offset up to the last
  byte, and \<open>strncmp\<close> then compares bytes of the block that were never written. Three
  workers on the 12 bytes \<open>AACGTACGTACG\<close>, read from a file into a block of 1100 bytes that
  holds \<open>T\<close> at offset 12, report 3 matches of \<open>ACGT\<close>; the linear scan of the 12 bytes
  finds 2. This is the missing bound of C2.
\<close>

theorem parallel_count_exceeds_linear_scan:
  "main [Opt_b 1100, Opt_p ''ACGT'', Opt_n 3] [Some (''AACGTACGTACG'' @ [newline])]
        (''????????????'' @ ''T'') []
       = Inr \<lparr>tried = 12, searched_pattern = ''ACGT'', matched = 3\<rparr>
   \<and> (case read_files [Some (''AACGTACGTACG'' @ [newline])] []
             (fasta_create 1100 (''????????????'' @ ''T'')) of
        Inl e \<Rightarrow> False
      | Inr f \<Rightarrow>
          cur_length f = 12
          \<and> contents f = ''AACGTACGTACG''
          \<and> linear_scan (contents f) (cur_length f) ''ACGT'' = 2)"
  by code_simp

lemma probe_offsets_length: "probe_offsets mem pat as = Inr l \<Longrightarrow> length l = length as"
  using probe_offsets_fst [of mem pat as l] by (metis length_map)

lemma scan_phase_returns:
  assumes "0 < num_threads g"
    and "cur_length (fasta g) + strlen (pattern g) \<le> Suc (length (sequence (fasta g)))"
  shows "\<exists>g'. scan_phase g = Inr g'"
proof -
  let ?w = "nat (num_threads g)" and ?L = "cur_length (fasta g)"
  have "\<forall>a\<in>set [0..<?w * (?L div ?w)]. a + strlen (pattern g) \<le> length (sequence (fasta g))"
  proof (intro ballI)
    fix a assume "a \<in> set [0..<?w * (?L div ?w)]"
    then have "a < ?w * (?L div ?w)" by simp
    also have "\<dots> \<le> ?L" by simp
    finally have "a < ?L" .
    with assms(2) show "a + strlen (pattern g) \<le> length (sequence (fasta g))" by linarith
  qed
  from probe_offsets_returns [OF this] show ?thesis
    unfolding scan_phase_probe_offsets [OF assms(1)] by auto
qed

lemma scan_phase_log:
  assumes "0 < num_threads g" "scan_phase g = Inr g'"
  shows "\<exists>l. probe_offsets (sequence (fasta g)) (pattern g)
            [0..<nat (num_threads g) * (cur_length (fasta g) div nat (num_threads g))] = Inr l
          \<and> g' = add_counts (g\<lparr>chunk_size := int (cur_length (fasta g) div nat (num_threads g))\<rparr>) l"
  using assms(2) unfolding scan_phase_probe_offsets [OF assms(1)]
  by (auto split: sum.splits)

lemma scan_phase_trials:
  assumes "0 < num_threads g" "scan_phase g = Inr g'"
  shows "trial_count g' = trial_count g
           + num_threads g * (int (cur_length (fasta g)) div num_threads g)"
proof -
  let ?w = "nat (num_threads g)" and ?L = "cur_length (fasta g)"
  have w: "num_threads g = int ?w" using assms(1) by simp
  from scan_phase_log [OF assms] obtain l where
    l: "probe_offsets (sequence (fasta g)) (pattern g) [0..<?w * (?L div ?w)] = Inr l"
    and g': "g' = add_counts (g\<lparr>chunk_size := int (?L div ?w)\<rparr>) l" by blast
  from probe_offsets_length [OF l] have "int (length l) = int ?w * int (?L div ?w)" by simp
  also have "\<dots> = num_threads g * (int ?L div num_threads g)"
    using w by (metis zdiv_int)
  finally show ?thesis by (simp add: g')
qed

text \<open>
  C3, as the code has it. The attempt count is not \<open>L - p + 1\<close>: no start offset is left out
  for the sake of the pattern's length. With \<open>w > 0\<close> threads the aggregated attempt count
  is \<open>w * (L div w)\<close>, one attempt for every start offset of every chunk, whatever the
  pattern; that is \<open>L\<close> when \<open>w\<close> divides \<open>L\<close>. The run returns whenever the block has room
  for the pattern behind the last start offset.
\<close>

theorem attempt_count:
  assumes "0 < num_threads g"
  shows "(cur_length (fasta g) + strlen (pattern g) \<le> Suc (length (sequence (fasta g)))
           \<longrightarrow> (\<exists>g'. scan_phase g = Inr g'))
    \<and> (\<forall>g'. scan_phase g = Inr g' \<longrightarrow>
          trial_count g' = trial_count g
             + num_threads g * (int (cur_length (fasta g)) div num_threads g)
          \<and> (num_threads g dvd int (cur_length (fasta g)) \<longrightarrow>
               trial_count g' = trial_count g + int (cur_length (fasta g))))"
proof -
  let ?L = "cur_length (fasta g)"
  have "num_threads g * (int ?L div num_threads g) = int ?L"
    if "num_threads g dvd int ?L"
    using that by simp
  then show ?thesis
    using scan_phase_returns [OF assms] scan_phase_trials [OF assms] by auto
qed

text \<open>Five threads on 12 bytes make 10 attempts, four threads 12.\<close>

theorem attempt_count_witness:
  "scan_phase (start_globals False ''ACGT'' 5 example_block)
      = Inr ((start_globals False ''ACGT'' 5 example_block)
               \<lparr>match_count := 2, trial_count := 10, chunk_size := 2\<rparr>)
   \<and> scan_phase (start_globals False ''ACGT'' 4 example_block)
      = Inr ((start_globals False ''ACGT'' 4 example_block)
               \<lparr>match_count := 2, trial_count := 12, chunk_size := 3\<rparr>)"
proof -
  let ?g = "start_globals False ''ACGT'' 5 example_block"
  let ?h = "start_globals False ''ACGT'' 4 example_block"
  have ev: "scan_phase ?g = Inr (?g\<lparr>match_count := 2, trial_count := 10, chunk_size := 2\<rparr>)"
    "scan_phase ?h = Inr (?h\<lparr>match_count := 2, trial_count := 12, chunk_size := 3\<rparr>)"
    by code_simp+
  have "0 < num_threads ?g" "0 < num_threads ?h" by (simp_all add: start_globals_def)
  from attempt_count [OF this(1)] attempt_count [OF this(2)] ev show ?thesis
    by simp
qed

text \<open>C3 as stated fails on its own example: the 11 bytes \<open>AACGTACGTAA\<close>, read from a
  file into a block of 1100 bytes, the pattern \<open>ACGT\<close> and one thread give 11 attempts, not
  \<open>11 - 4 + 1 = 8\<close>.\<close>

theorem attempt_count_counterexample:
  "main [Opt_b 1100, Opt_p ''ACGT'', Opt_n 1] [Some (''AACGTACGTAA'' @ [newline])] [] []
     = Inr \<lparr>tried = 11, searched_pattern = ''ACGT'', matched = 2\<rparr>
   \<and> (11 :: int) \<noteq> int (length ''AACGTACGTAA'') - int (length ''ACGT'') + 1"
  by code_simp

lemma upt_glue: "i \<le> j \<Longrightarrow> j \<le> k \<Longrightarrow> [i..<k] = [i..<j] @ [j..<k]"
  using upt_add_eq_append [of i j "k - j"] by simp

lemma chunk_upt_split:
  assumes "i < w"
  shows "[0..<w * c] = [0..<i * c] @ [i * c..<(i + 1) * c] @ [(i + 1) * c..<w * c]"
proof -
  have a: "i * c \<le> (i + 1) * c" by simp
  from assms have b: "(i + 1) * c \<le> w * c" by (intro mult_le_mono1) simp
  from a b have c: "i * c \<le> w * c" by (rule le_trans)
  have "[0..<w * c] = [0..<i * c] @ [i * c..<w * c]"
    using c by (intro upt_glue) simp_all
  also have "[i * c..<w * c] = [i * c..<(i + 1) * c] @ [(i + 1) * c..<w * c]"
    using a b by (rule upt_glue)
  finally show ?thesis .
qed

lemma probe_offsets_middle:
  "probe_offsets mem pat (xs @ ys @ zs) = Inr l \<Longrightarrow> \<exists>l'. probe_offsets mem pat ys = Inr l'"
  by (auto simp: probe_offsets_append split: sum.splits)

lemma concat_chunks:
  "concat (map (\<lambda>i. [i * c..<(i + 1) * c]) [0..<w]) = [0..<w * c]"
proof (induction w)
  case 0
  then show ?case by simp
next
  case (Suc w)
  have "[0..<w * c + c] = [0..<w * c] @ [w * c..<w * c + c]"
    by (rule upt_add_eq_append) simp
  with Suc show ?case by (simp add: add.commute)
qed

lemma can_report_chunk:
  "can_report g \<or> cur_length (fasta g) div w = 0"
  by (cases "cur_length (fasta g) = 0") (simp_all add: can_report_def)

lemma scan_chunk_returns:
  assumes "probe_offsets (sequence (fasta g)) (pattern g) [ptr..<ptr + c] = Inr l"
    "can_report g \<or> c = 0"
  shows "scan_chunk (g\<lparr>chunk_size := int c\<rparr>) ptr = Inr (int (length (hits l)), int (length l), l)"
  using assms scan_chunk_probe_offsets [of "g\<lparr>chunk_size := int c\<rparr>" ptr]
  by (auto simp: can_report_def)

text \<open>
  C5. With \<open>w >= 1\<close> threads, the scan phase of \<open>main\<close> sets \<open>chunk_size\<close> to \<open>c = L div w\<close> and
  runs \<open>w\<close> workers, worker \<open>i\<close> on the pointer \<open>i * c\<close>. The ranges \<open>[i * c, (i + 1) * c)\<close>, in
  the order of the threads, make up \<open>[0, w * c)\<close> without gap or overlap, and \<open>L mod w\<close> bytes
  remain behind them. When the phase returns, \<open>chunk_size\<close> is \<open>c\<close>, every worker has returned
  and has tested exactly the start offsets of its range, in order, \<open>w * c\<close> attempts in all, so
  that no worker has tested an offset at or behind \<open>w * c\<close>. The phase returns when the block
  has room for the pattern behind the last start offset.
\<close>

theorem partition_ranges:
  fixes g :: globals
  defines "w \<equiv> nat (num_threads g)"
    and "L \<equiv> cur_length (fasta g)"
  defines "c \<equiv> L div w"
  defines "g1 \<equiv> g\<lparr>chunk_size := int c\<rparr>"
  assumes "0 < num_threads g"
  shows "scan_phase g = run_threads g1 (map (\<lambda>i. i * c) [0..<w])
    \<and> concat (map (\<lambda>i. [i * c..<(i + 1) * c]) [0..<w]) = [0..<w * c]
    \<and> w * c + L mod w = L
    \<and> (L + strlen (pattern g) \<le> Suc (length (sequence (fasta g)))
         \<longrightarrow> (\<exists>g'. scan_phase g = Inr g'))
    \<and> (\<forall>g'. scan_phase g = Inr g' \<longrightarrow>
          chunk_size g' = int c
          \<and> trial_count g' = trial_count g + int (w * c)
          \<and> (\<forall>i<w. \<exists>r. scan_chunk g1 (i * c) = Inr r
                \<and> map fst (snd (snd r)) = [i * c..<(i + 1) * c]
                \<and> (\<forall>a. w * c \<le> a \<longrightarrow> a \<notin> set (map fst (snd (snd r))))))"
proof -
  have cs: "c_div (int (cur_length (fasta g))) (num_threads g) = int c"
    using assms(5) by (simp add: c_div_nonneg zdiv_int c_def w_def L_def)
  have sp: "spawn_loop 0 (num_threads g) 0 (int c) = map (\<lambda>i. i * c) [0..<w]"
    by (simp add: spawn_loop_map w_def)
  have p1: "scan_phase g = run_threads g1 (map (\<lambda>i. i * c) [0..<w])"
    using assms(5) by (simp add: scan_phase_def Let_def cs sp g1_def)
  have p3: "w * c + L mod w = L" by (simp add: c_def)
  have cr: "can_report g \<or> c = 0"
    unfolding c_def L_def by (rule can_report_chunk)
  have p4: "\<exists>g'. scan_phase g = Inr g'"
    if "L + strlen (pattern g) \<le> Suc (length (sequence (fasta g)))"
    using that scan_phase_returns [OF assms(5)] by (simp add: L_def)
  have p5: "chunk_size g' = int c
          \<and> trial_count g' = trial_count g + int (w * c)
          \<and> (\<forall>i<w. \<exists>r. scan_chunk g1 (i * c) = Inr r
                \<and> map fst (snd (snd r)) = [i * c..<(i + 1) * c]
                \<and> (\<forall>a. w * c \<le> a \<longrightarrow> a \<notin> set (map fst (snd (snd r)))))"
    if run: "scan_phase g = Inr g'" for g'
  proof -
    from scan_phase_log [OF assms(5) run] obtain l where
      l: "probe_offsets (sequence (fasta g)) (pattern g) [0..<w * c] = Inr l"
      and g': "g' = add_counts g1 l"
      unfolding w_def c_def L_def g1_def by blast
    from g' have a: "chunk_size g' = int c" by (simp add: g1_def)
    from probe_offsets_length [OF l] g' have b: "trial_count g' = trial_count g + int (w * c)"
      by (simp add: g1_def)
    have d: "\<exists>r. scan_chunk g1 (i * c) = Inr r
                \<and> map fst (snd (snd r)) = [i * c..<(i + 1) * c]
                \<and> (\<forall>a. w * c \<le> a \<longrightarrow> a \<notin> set (map fst (snd (snd r))))"
      if i: "i < w" for i
    proof -
      from l probe_offsets_middle [of _ _ "[0..<i * c]" "[i * c..<(i + 1) * c]"
            "[(i + 1) * c..<w * c]"] chunk_upt_split [OF i, of c]
      obtain l' where l': "probe_offsets (sequence (fasta g)) (pattern g)
            [i * c..<(i + 1) * c] = Inr l'"
        by metis
      then have l'': "probe_offsets (sequence (fasta g)) (pattern g) [i * c..<i * c + c] = Inr l'"
        by (simp add: add.commute)
      from scan_chunk_returns [OF l'' cr]
      have r: "scan_chunk g1 (i * c) = Inr (int (length (hits l')), int (length l'), l')"
        by (simp add: g1_def)
      from probe_offsets_fst [OF l'] have m: "map fst l' = [i * c..<(i + 1) * c]" .
      from i have le: "(i + 1) * c \<le> w * c" by (intro mult_le_mono1) simp
      have n: "\<forall>a. w * c \<le> a \<longrightarrow> a \<notin> set (map fst l')"
        unfolding m using le by auto
      let ?r = "(int (length (hits l')), int (length l'), l')"
      have s: "snd (snd ?r) = l'" by simp
      from r m n have "scan_chunk g1 (i * c) = Inr ?r
          \<and> map fst (snd (snd ?r)) = [i * c..<(i + 1) * c]
          \<and> (\<forall>a. w * c \<le> a \<longrightarrow> a \<notin> set (map fst (snd (snd ?r))))"
        unfolding s by blast
      then show ?thesis by (rule exI)
    qed
    from a b d show ?thesis by blast
  qed
  from p1 concat_chunks [of c w] p3 p4 p5 show ?thesis by blast
qed

text \<open>Five threads on 12 bytes: chunks of 2, ten attempts, and offsets 10 and 11 are left
  over.\<close>

theorem partition_ranges_witness:
  "scan_phase (start_globals False ''ACGT'' 5 example_block)
     = Inr ((start_globals False ''ACGT'' 5 example_block)
              \<lparr>match_count := 2, trial_count := 10, chunk_size := 2\<rparr>)
   \<and> run_threads ((start_globals False ''ACGT'' 5 example_block)\<lparr>chunk_size := 2\<rparr>)
        [0, 2, 4, 6, 8]
     = Inr ((start_globals False ''ACGT'' 5 example_block)
              \<lparr>match_count := 2, trial_count := 10, chunk_size := 2\<rparr>)
   \<and> scan_chunk ((start_globals False ''ACGT'' 5 example_block)\<lparr>chunk_size := 2\<rparr>) 8
       = Inr (0, 2, [(8, 1, False), (9, 4, False)])
   \<and> 5 * 2 + cur_length example_block mod 5 = cur_length example_block"
proof -
  let ?g = "start_globals False ''ACGT'' 5 example_block"
  have g: "0 < num_threads ?g" "nat (num_threads ?g) = 5" "cur_length (fasta ?g) = 12"
    by (simp_all add: start_globals_def example_block_def)
  have ev: "scan_phase ?g = Inr (?g\<lparr>match_count := 2, trial_count := 10, chunk_size := 2\<rparr>)"
    by code_simp
  have ev2: "scan_chunk (?g\<lparr>chunk_size := 2\<rparr>) 8 = Inr (0, 2, [(8, 1, False), (9, 4, False)])"
    by code_simp
  note pr = partition_ranges [OF g(1)]
  from pr [THEN conjunct1]
  have a: "scan_phase ?g = run_threads (?g\<lparr>chunk_size := 2\<rparr>) [0, 2, 4, 6, 8]"
    unfolding g by (simp add: upt_rec)
  from pr [THEN conjunct2, THEN conjunct2, THEN conjunct1]
  have c: "5 * 2 + cur_length example_block mod 5 = cur_length example_block"
    unfolding g by (simp add: example_block_def)
  from a c ev ev2 show ?thesis by simp
qed

lemma count_list_distinct: "distinct xs \<Longrightarrow> x \<in> set xs \<Longrightarrow> count_list xs x = 1"
  by (induction xs) auto

lemma occurrence_counted_once:
  fixes g :: globals
  defines "w \<equiv> nat (num_threads g)"
  defines "c \<equiv> cur_length (fasta g) div w"
  defines "g1 \<equiv> g\<lparr>chunk_size := int c\<rparr>"
  assumes threads: "0 < num_threads g"
    and cstring: "NUL \<notin> set (pattern g)"
    and run: "scan_phase g = Inr g'"
    and owner: "j < w" "j * c \<le> a" "a < (j + 1) * c"
    and occ: "occurs_at (sequence (fasta g)) (pattern g) a"
  shows "(\<exists>r. scan_chunk g1 (j * c) = Inr r
            \<and> fst r = int (length (hits (snd (snd r))))
            \<and> count_list (hits (snd (snd r))) a = 1)
    \<and> (\<forall>i<w. i \<noteq> j \<longrightarrow>
          (\<exists>r. scan_chunk g1 (i * c) = Inr r \<and> a \<notin> set (hits (snd (snd r)))))
    \<and> match_count g' = match_count g
         + int (length (filter (occurs_at (sequence (fasta g)) (pattern g)) [0..<w * c]))"
proof -
  let ?mem = "sequence (fasta g)" and ?pat = "pattern g"
  from scan_phase_log [OF threads run] obtain l where
    l: "probe_offsets ?mem ?pat [0..<w * c] = Inr l"
    and g': "g' = add_counts g1 l"
    unfolding w_def c_def g1_def by blast
  have chunk: "\<exists>r. scan_chunk g1 (i * c) = Inr r
        \<and> fst r = int (length (hits (snd (snd r))))
        \<and> hits (snd (snd r)) = filter (occurs_at ?mem ?pat) [i * c..<(i + 1) * c]"
    if i: "i < w" for i
  proof -
    from l chunk_upt_split [OF i, of c] probe_offsets_middle
    obtain l' where l': "probe_offsets ?mem ?pat [i * c..<(i + 1) * c] = Inr l'"
      by metis
    then have "probe_offsets ?mem ?pat [i * c..<i * c + c] = Inr l'" by (simp add: add.commute)
    moreover have "can_report g \<or> c = 0"
      unfolding c_def by (rule can_report_chunk)
    ultimately show ?thesis
      using scan_chunk_returns [of g "i * c" c l'] probe_offsets_hits [OF cstring l']
      unfolding g1_def by simp
  qed
  have p1: "\<exists>r. scan_chunk g1 (j * c) = Inr r
            \<and> fst r = int (length (hits (snd (snd r))))
            \<and> count_list (hits (snd (snd r))) a = 1"
  proof -
    from chunk [OF owner(1)] obtain r where r: "scan_chunk g1 (j * c) = Inr r"
      "fst r = int (length (hits (snd (snd r))))"
      "hits (snd (snd r)) = filter (occurs_at ?mem ?pat) [j * c..<(j + 1) * c]" by blast
    have "count_list (filter (occurs_at ?mem ?pat) [j * c..<(j + 1) * c]) a = 1"
      using owner(2,3) occ by (intro count_list_distinct) simp_all
    with r show ?thesis by auto
  qed
  have p2: "\<exists>r. scan_chunk g1 (i * c) = Inr r \<and> a \<notin> set (hits (snd (snd r)))"
    if i: "i < w" "i \<noteq> j" for i
  proof -
    from chunk [OF i(1)] obtain r where r: "scan_chunk g1 (i * c) = Inr r"
      "hits (snd (snd r)) = filter (occurs_at ?mem ?pat) [i * c..<(i + 1) * c]" by blast
    have "a \<notin> set [i * c..<(i + 1) * c]"
    proof (cases "i < j")
      case True
      then have "(i + 1) * c \<le> j * c" by (intro mult_le_mono1) simp
      with owner(2) show ?thesis by simp
    next
      case False
      with i(2) have "(j + 1) * c \<le> i * c" by (intro mult_le_mono1) simp
      with owner(3) show ?thesis by simp
    qed
    with r show ?thesis by auto
  qed
  have p3: "match_count g' = match_count g
         + int (length (filter (occurs_at ?mem ?pat) [0..<w * c]))"
    using probe_offsets_hits [OF cstring l] by (simp add: g' g1_def)
  from p1 p2 p3 show ?thesis by blast
qed

text \<open>
  C4. An occurrence of the pattern that starts at an offset \<open>a\<close> of the range of worker \<open>j\<close>
  is reported once by worker \<open>j\<close> and by no other worker, wherever it ends: also when its
  last bytes lie in the range of the next worker. The aggregated match count is the number
  of offsets of the ranges at which the pattern occurs, each counted once. The run returns
  whenever the block has room for the pattern behind the last start offset.
\<close>

theorem boundary_occurrence_counted_once:
  fixes g :: globals
  defines "w \<equiv> nat (num_threads g)"
  defines "c \<equiv> cur_length (fasta g) div w"
  defines "g1 \<equiv> g\<lparr>chunk_size := int c\<rparr>"
  assumes "0 < num_threads g"
    and "NUL \<notin> set (pattern g)"
    and "j < w" "j * c \<le> a" "a < (j + 1) * c"
    and "occurs_at (sequence (fasta g)) (pattern g) a"
  shows "(cur_length (fasta g) + length (pattern g) \<le> Suc (length (sequence (fasta g)))
           \<longrightarrow> (\<exists>g'. scan_phase g = Inr g'))
    \<and> (\<forall>g'. scan_phase g = Inr g' \<longrightarrow>
          (\<exists>r. scan_chunk g1 (j * c) = Inr r
              \<and> fst r = int (length (hits (snd (snd r))))
              \<and> count_list (hits (snd (snd r))) a = 1)
          \<and> (\<forall>i<w. i \<noteq> j \<longrightarrow>
                (\<exists>r. scan_chunk g1 (i * c) = Inr r \<and> a \<notin> set (hits (snd (snd r)))))
          \<and> match_count g' = match_count g
               + int (length (filter (occurs_at (sequence (fasta g)) (pattern g)) [0..<w * c])))"
proof -
  have "\<exists>g'. scan_phase g = Inr g'"
    if "cur_length (fasta g) + length (pattern g) \<le> Suc (length (sequence (fasta g)))"
    using that scan_phase_returns [OF assms(4)] by (simp add: strlen_no_NUL [OF assms(5)])
  moreover have "(\<exists>r. scan_chunk g1 (j * c) = Inr r
              \<and> fst r = int (length (hits (snd (snd r))))
              \<and> count_list (hits (snd (snd r))) a = 1)
          \<and> (\<forall>i<w. i \<noteq> j \<longrightarrow>
                (\<exists>r. scan_chunk g1 (i * c) = Inr r \<and> a \<notin> set (hits (snd (snd r)))))
          \<and> match_count g' = match_count g
               + int (length (filter (occurs_at (sequence (fasta g)) (pattern g)) [0..<w * c]))"
    if "scan_phase g = Inr g'" for g'
    using occurrence_counted_once [OF assms(4,5) that] assms(6-9)
    unfolding w_def c_def g1_def by blast
  ultimately show ?thesis by blast
qed

text \<open>Three threads, chunks of 4: the occurrence at offset 1 ends at offset 4, in the chunk
  of the second thread; the first thread reports it, the second does not.\<close>

theorem boundary_occurrence_counted_once_witness:
  "occurs_at (sequence example_block) ''ACGT'' 1
   \<and> scan_chunk ((start_globals False ''ACGT'' 3 example_block)\<lparr>chunk_size := 4\<rparr>) 0
       = Inr (1, 4, [(0, 2, False), (1, 4, True), (2, 1, False), (3, 1, False)])
   \<and> scan_chunk ((start_globals False ''ACGT'' 3 example_block)\<lparr>chunk_size := 4\<rparr>) 4
       = Inr (1, 4, [(4, 1, False), (5, 4, True), (6, 1, False), (7, 1, False)])
   \<and> count_list (hits [(0, 2, False), (1, 4, True), (2, 1, False), (3, 1, False)]) 1 = 1
   \<and> 1 \<notin> set (hits [(4, 1, False), (5, 4, True), (6, 1, False), (7, 1, False)])"
proof -
  let ?g = "start_globals False ''ACGT'' 3 example_block"
  have h: "0 < num_threads ?g" "NUL \<notin> set (pattern ?g)"
    "scan_phase ?g = Inr (?g\<lparr>match_count := 2, trial_count := 12, chunk_size := 4\<rparr>)"
    "0 < nat (num_threads ?g)"
    "0 * (cur_length (fasta ?g) div nat (num_threads ?g)) \<le> 1"
    "1 < (0 + 1) * (cur_length (fasta ?g) div nat (num_threads ?g))"
    "occurs_at (sequence (fasta ?g)) (pattern ?g) 1"
    by (simp_all add: start_globals_def example_block_def NUL_def occurs_at_def) code_simp
  have c: "int (cur_length (fasta ?g) div nat (num_threads ?g)) = 4"
    by (simp add: start_globals_def example_block_def)
  have ev: "scan_chunk (?g\<lparr>chunk_size := 4\<rparr>) 0
       = Inr (1, 4, [(0, 2, False), (1, 4, True), (2, 1, False), (3, 1, False)])"
    "scan_chunk (?g\<lparr>chunk_size := 4\<rparr>) 4
       = Inr (1, 4, [(4, 1, False), (5, 4, True), (6, 1, False), (7, 1, False)])"
    by code_simp+
  from boundary_occurrence_counted_once [OF h(1,2,4-7), THEN conjunct2, rule_format, OF h(3),
      THEN conjunct1]
  have "count_list (hits [(0, 2, False), (1, 4, True), (2, 1, False), (3, 1, False)]) 1 = 1"
    unfolding c using ev(1) by simp
  moreover have "1 \<notin> set (hits [(4, 1, False), (5, 4, True), (6, 1, False), (7, 1, False)])"
    by (simp add: hits_def)
  moreover have "occurs_at (sequence example_block) ''ACGT'' 1"
    using h(7) by (simp add: start_globals_def)
  ultimately show ?thesis using ev by simp
qed

lemma thread_step_frame:
  assumes "thread_step i s = Some s'"
  shows "fasta (shared s') = fasta (shared s) \<and> pattern (shared s') = pattern (shared s)
    \<and> chunk_size (shared s') = chunk_size (shared s)
    \<and> num_threads (shared s') = num_threads (shared s)
    \<and> verbose (shared s') = verbose (shared s)"
proof -
  note i = thread_step_bound [OF assms]
  show ?thesis
  proof (cases "pc (threads s ! i)")
    case AtLock
    with assms i show ?thesis by (auto simp: thread_step_AtLock split: if_splits)
  next
    case LoadMatch
    with assms i show ?thesis by (auto simp: thread_step_LoadMatch)
  next
    case StoreMatch
    with assms i show ?thesis by (auto simp: thread_step_StoreMatch)
  next
    case LoadTrial
    with assms i show ?thesis by (auto simp: thread_step_LoadTrial)
  next
    case StoreTrial
    with assms i show ?thesis by (auto simp: thread_step_StoreTrial)
  next
    case AtUnlock
    with assms i show ?thesis by (auto simp: thread_step_AtUnlock)
  next
    case Finished
    with assms show ?thesis by (simp add: thread_step_Finished)
  qed
qed

lemma parallel_match_log:
  assumes "can_report g"
  shows "parallel_match g ptr =
     (case probe_offsets (sequence (fasta g)) (pattern g) [ptr..<nat (int ptr + chunk_size g)] of
        Inl e \<Rightarrow> Inl e
      | Inr l \<Rightarrow> Inr (add_counts g l))"
proof -
  from assms have "verbose g \<longrightarrow> 0 < cur_length (fasta g)" by (simp add: can_report_def)
  then show ?thesis
    by (simp add: parallel_match_def scan_chunk_def scan_loop_probe_offsets add_counts_def
        split: sum.splits)
qed

lemma parallel_match_failure:
  "parallel_match g ptr = Inl e \<Longrightarrow> e = OutOfBoundsRead \<or> e = BogusBounds"
  by (auto simp: parallel_match_def scan_chunk_def split: sum.splits dest: scan_loop_failure)

text \<open>
  C10. A worker changes nothing but the two shared counters. \<open>parallel_match\<close> either stops
  (in a load outside the block, or in \<open>clamp\<close> when verbose mode finds a match in a buffer
  of length 0) or returns globals whose buffer (bytes, lengths), pattern, chunk size,
  thread count and verbosity are those it started with; it returns whenever the block has
  room for the pattern behind the last start offset of the chunk and a match can be
  printed. The same holds for every single step of a thread in the interleaved model of the
  critical section.
\<close>

theorem parallel_match_frame:
  "(case parallel_match g ptr of
      Inl e \<Rightarrow> e = OutOfBoundsRead \<or> e = BogusBounds
    | Inr g' \<Rightarrow> fasta g' = fasta g \<and> pattern g' = pattern g \<and> chunk_size g' = chunk_size g
        \<and> num_threads g' = num_threads g \<and> verbose g' = verbose g)
   \<and> (can_report g
        \<and> int ptr + chunk_size g + int (strlen (pattern g)) \<le> int (length (sequence (fasta g))) + 1
        \<longrightarrow> (\<exists>g'. parallel_match g ptr = Inr g'))
   \<and> (\<forall>i s s'. thread_step i s = Some s' \<longrightarrow>
         fasta (shared s') = fasta (shared s) \<and> pattern (shared s') = pattern (shared s)
         \<and> chunk_size (shared s') = chunk_size (shared s)
         \<and> num_threads (shared s') = num_threads (shared s)
         \<and> verbose (shared s') = verbose (shared s))"
proof -
  have p1: "case parallel_match g ptr of
      Inl e \<Rightarrow> e = OutOfBoundsRead \<or> e = BogusBounds
    | Inr g' \<Rightarrow> fasta g' = fasta g \<and> pattern g' = pattern g \<and> chunk_size g' = chunk_size g
        \<and> num_threads g' = num_threads g \<and> verbose g' = verbose g"
  proof (cases "parallel_match g ptr")
    case (Inl e)
    with parallel_match_failure [OF Inl] show ?thesis by simp
  next
    case (Inr g')
    then show ?thesis
      by (auto simp: parallel_match_def split: sum.splits)
  qed
  have p2: "\<exists>g'. parallel_match g ptr = Inr g'"
    if cr: "can_report g"
      and room: "int ptr + chunk_size g + int (strlen (pattern g))
                   \<le> int (length (sequence (fasta g))) + 1"
  proof -
    have "\<forall>a\<in>set [ptr..<nat (int ptr + chunk_size g)].
        a + strlen (pattern g) \<le> length (sequence (fasta g))"
      using room by auto
    from probe_offsets_returns [OF this] show ?thesis
      unfolding parallel_match_log [OF cr] by auto
  qed
  from p1 p2 thread_step_frame show ?thesis by blast
qed

text \<open>The second of three threads on the example buffer.\<close>

theorem parallel_match_frame_witness:
  "parallel_match ((start_globals False ''ACGT'' 3 example_block)\<lparr>chunk_size := 4\<rparr>) 4
     = Inr ((start_globals False ''ACGT'' 3 example_block)
              \<lparr>match_count := 1, trial_count := 4, chunk_size := 4\<rparr>)
   \<and> fasta ((start_globals False ''ACGT'' 3 example_block)
              \<lparr>match_count := 1, trial_count := 4, chunk_size := 4\<rparr>) = example_block"
proof -
  let ?g = "(start_globals False ''ACGT'' 3 example_block)\<lparr>chunk_size := 4\<rparr>"
  have room: "int 4 + chunk_size ?g + int (strlen (pattern ?g)) \<le> int (length (sequence (fasta ?g))) + 1"
    by (simp add: start_globals_def example_block_def strlen_def NUL_def)
  have ev: "parallel_match ?g 4 = Inr ((start_globals False ''ACGT'' 3 example_block)
              \<lparr>match_count := 1, trial_count := 4, chunk_size := 4\<rparr>)"
    by code_simp
  have cr: "can_report ?g" by (simp add: can_report_def start_globals_def)
  from parallel_match_frame [of ?g 4] cr room ev show ?thesis
    by (simp add: start_globals_def)
qed

text \<open>
  C2 does not hold of the code: \<open>last_location\<close> is \<open>ptr + chunk_size - 1\<close> for every worker,
  with no regard to the pattern length or to \<open>cur_length\<close>. The file \<open>AACGTACGTAA\<close> read into
  a block of 1100 bytes gives \<open>cur_length = 11\<close>; with the pattern \<open>ACGT\<close> the single worker
  tests the offsets 8, 9 and 10, and at offset 10 \<open>strncmp\<close> loads two bytes, the second at
  offset 11, behind the data. What the program reports depends on such bytes: when the
  fresh block holds \<open>CGT\<close> at offsets 11 to 13, it reports 3 matches for data in which the
  pattern occurs twice.
\<close>

theorem scan_reads_past_end:
  "(case read_files [Some (''AACGTACGTAA'' @ [newline])] [] (fasta_create 1100 []) of
      Inl e \<Rightarrow> False
    | Inr f \<Rightarrow>
        cur_length f = 11
        \<and> scan_chunk ((start_globals False ''ACGT'' 1 f)\<lparr>chunk_size := 11\<rparr>) 0
            = Inr (2, 11, [(0, 2, False), (1, 4, True), (2, 1, False), (3, 1, False),
                           (4, 1, False), (5, 4, True), (6, 1, False), (7, 1, False),
                           (8, 1, False), (9, 2, False), (10, 2, False)]))
   \<and> main [Opt_b 1100, Opt_p ''ACGT''] [Some (''AACGTACGTAA'' @ [newline])]
        (''???????????'' @ ''CGT'') []
       = Inr \<lparr>tried = 11, searched_pattern = ''ACGT'', matched = 3\<rparr>
   \<and> length (filter (occurs_at ''AACGTACGTAA'' ''ACGT'') [0..<11]) = 2"
  by code_simp




lemma scan_chunk_counters:
  "scan_chunk (g\<lparr>match_count := a, trial_count := b\<rparr>) ptr = scan_chunk g ptr"
  by (simp add: scan_chunk_def)

lemma scan_all_counters:
  "scan_all (g\<lparr>match_count := a, trial_count := b\<rparr>) ptrs = scan_all g ptrs"
  by (induction ptrs) (simp_all add: scan_chunk_counters cong: sum.case_cong)

lemma run_threads_scan_all:
  "run_threads g ptrs =
     (case scan_all g ptrs of
        Inl e \<Rightarrow> Inl e
      | Inr ts \<Rightarrow>
          Inr (g\<lparr>match_count := match_count g + sum_list (map local_count ts),
                 trial_count := trial_count g + sum_list (map local_trial ts)\<rparr>))"
proof (induction ptrs arbitrary: g)
  case Nil
  then show ?case by simp
next
  case (Cons ptr ptrs)
  show ?case
  proof (cases "scan_chunk g ptr")
    case (Inl e)
    then show ?thesis by (simp add: parallel_match_def)
  next
    case (Inr r)
    obtain lc lt log where r: "r = (lc, lt, log)" by (cases r)
    let ?g' = "g\<lparr>match_count := match_count g + lc, trial_count := trial_count g + lt\<rparr>"
    have pm: "parallel_match g ptr = Inr ?g'"
      using Inr by (simp add: parallel_match_def r)
    show ?thesis
      using Inr Cons.IH [of ?g']
      by (simp add: pm scan_all_counters r add.assoc split: sum.splits)
  qed
qed

lemma run_schedule_frame:
  "run_schedule sched s = Some s' \<Longrightarrow>
   fasta (shared s') = fasta (shared s) \<and> pattern (shared s') = pattern (shared s)
    \<and> chunk_size (shared s') = chunk_size (shared s)
    \<and> num_threads (shared s') = num_threads (shared s)
    \<and> verbose (shared s') = verbose (shared s)"
proof (induction sched arbitrary: s)
  case Nil
  then show ?case by simp
next
  case (Cons i sched)
  then obtain s1 where "thread_step i s = Some s1" "run_schedule sched s1 = Some s'"
    by (auto split: option.splits)
  with Cons.IH [of s1] thread_step_frame [of i s s1] show ?case by simp
qed

section \<open>Claims about the shared totals\<close>

text \<open>
  C6. When the threads are created the shared counters are zero (their static initial value;
  nothing before the scan phase writes them). The threads then merge their local results
  under the mutex, in any order the scheduler chooses: \<open>run_schedule\<close> runs one step of one
  thread at a time, and a thread that asks for the held mutex cannot step. From the state
  after the creation of the threads
  \<^item> some schedule runs every thread to its end (the joins return);
  \<^item> in every state that a schedule reaches, at most one thread is between lock and unlock;
  \<^item> whenever a schedule has run every thread to its end, the total match count is the sum
    of the local match counts, the total attempt count is the sum of the local attempt
    counts, and the globals are those that \<open>run_threads\<close> computes by running the threads
    one after the other.
\<close>

theorem merged_totals:
  fixes v pat n f c
  defines "g \<equiv> (start_globals v pat n f)\<lparr>chunk_size := c\<rparr>"
  assumes "fork g ptrs = Inr s0"
  shows "match_count (shared s0) = 0 \<and> trial_count (shared s0) = 0
    \<and> (\<exists>sched s. run_schedule sched s0 = Some s \<and> joined s)
    \<and> (\<forall>sched s. run_schedule sched s0 = Some s \<longrightarrow>
          (\<forall>i j. i < length (threads s) \<and> j < length (threads s)
                \<and> critical (pc (threads s ! i)) \<and> critical (pc (threads s ! j)) \<longrightarrow> i = j)
          \<and> (joined s \<longrightarrow>
                match_count (shared s) = sum_list (map local_count (threads s0))
                \<and> trial_count (shared s) = sum_list (map local_trial (threads s0))
                \<and> run_threads g ptrs = Inr (shared s)))"
proof -
  have zero: "match_count g = 0" "trial_count g = 0"
    by (simp_all add: g_def start_globals_def)
  from fork_merge_inv [OF assms(2)] have inv: "merge_inv 0 0 s0" and sh: "shared s0 = g"
    by (simp_all add: zero)
  from assms(2) have ts: "scan_all g ptrs = Inr (threads s0)"
    by (auto simp: fork_def split: sum.splits)
  have p1: "match_count (shared s0) = 0 \<and> trial_count (shared s0) = 0"
    by (simp add: sh zero)
  have p3: "i = j"
    if "run_schedule sched s0 = Some s" "i < length (threads s)" "j < length (threads s)"
      "critical (pc (threads s ! i))" "critical (pc (threads s ! j))" for sched s i j
    using merge_inv_exclusion [OF merge_inv_run [OF inv that(1)] that(2-5)] .
  have p4: "match_count (shared s) = sum_list (map local_count (threads s0))
        \<and> trial_count (shared s) = sum_list (map local_trial (threads s0))
        \<and> run_threads g ptrs = Inr (shared s)"
    if run: "run_schedule sched s0 = Some s" and j: "joined s" for sched s
  proof -
    from merge_inv_joined [OF merge_inv_run [OF inv run] j] run_schedule_locals [OF run]
    have m: "match_count (shared s) = sum_list (map local_count (threads s0))"
      and t: "trial_count (shared s) = sum_list (map local_trial (threads s0))"
      by (simp_all add: sum_list_def)
    from run_schedule_frame [OF run] m t
    have "shared s = g\<lparr>match_count := match_count g + sum_list (map local_count (threads s0)),
           trial_count := trial_count g + sum_list (map local_trial (threads s0))\<rparr>"
      by (intro globals.equality) (simp_all add: sh zero)
    with m t show ?thesis by (simp add: run_threads_scan_all ts)
  qed
  from p1 merge_inv_completes [OF inv] p3 p4 show ?thesis by blast
qed

text \<open>Three threads on the example buffer; the schedule lets the third thread merge before
  the second.\<close>

theorem merged_totals_witness:
  "fork ((start_globals False ''ACGT'' 3 example_block)\<lparr>chunk_size := 4\<rparr>) [0, 4, 8]
     = Inr \<lparr>shared = (start_globals False ''ACGT'' 3 example_block)\<lparr>chunk_size := 4\<rparr>,
            holder = None,
            threads = [\<lparr>pc = AtLock, local_count = 1, local_trial = 4, tmp = 0\<rparr>,
                       \<lparr>pc = AtLock, local_count = 1, local_trial = 4, tmp = 0\<rparr>,
                       \<lparr>pc = AtLock, local_count = 0, local_trial = 4, tmp = 0\<rparr>]\<rparr>
   \<and> run_schedule [0, 0, 0, 0, 0, 0, 2, 2, 2, 2, 2, 2, 1, 1, 1, 1, 1, 1]
        \<lparr>shared = (start_globals False ''ACGT'' 3 example_block)\<lparr>chunk_size := 4\<rparr>,
         holder = None,
         threads = [\<lparr>pc = AtLock, local_count = 1, local_trial = 4, tmp = 0\<rparr>,
                    \<lparr>pc = AtLock, local_count = 1, local_trial = 4, tmp = 0\<rparr>,
                    \<lparr>pc = AtLock, local_count = 0, local_trial = 4, tmp = 0\<rparr>]\<rparr>
     = Some \<lparr>shared = (start_globals False ''ACGT'' 3 example_block)
                \<lparr>match_count := 2, trial_count := 12, chunk_size := 4\<rparr>,
             holder = None,
             threads = [\<lparr>pc = Finished, local_count = 1, local_trial = 4, tmp = 0\<rparr>,
                        \<lparr>pc = Finished, local_count = 1, local_trial = 4, tmp = 8\<rparr>,
                        \<lparr>pc = Finished, local_count = 0, local_trial = 4, tmp = 4\<rparr>]\<rparr>
   \<and> run_threads ((start_globals False ''ACGT'' 3 example_block)\<lparr>chunk_size := 4\<rparr>) [0, 4, 8]
     = Inr ((start_globals False ''ACGT'' 3 example_block)
                \<lparr>match_count := 2, trial_count := 12, chunk_size := 4\<rparr>)"
proof -
  let ?g = "(start_globals False ''ACGT'' 3 example_block)\<lparr>chunk_size := 4\<rparr>"
  let ?init = "\<lparr>shared = ?g, holder = None,
         threads = [\<lparr>pc = AtLock, local_count = 1, local_trial = 4, tmp = 0\<rparr>,
                    \<lparr>pc = AtLock, local_count = 1, local_trial = 4, tmp = 0\<rparr>,
                    \<lparr>pc = AtLock, local_count = 0, local_trial = 4, tmp = 0\<rparr>]\<rparr>"
  let ?final = "\<lparr>shared = (start_globals False ''ACGT'' 3 example_block)
                \<lparr>match_count := 2, trial_count := 12, chunk_size := 4\<rparr>,
             holder = None,
             threads = [\<lparr>pc = Finished, local_count = 1, local_trial = 4, tmp = 0\<rparr>,
                        \<lparr>pc = Finished, local_count = 1, local_trial = 4, tmp = 8\<rparr>,
                        \<lparr>pc = Finished, local_count = 0, local_trial = 4, tmp = 4\<rparr>]\<rparr>"
  have f: "fork ?g [0, 4, 8] = Inr ?init"
    by code_simp
  have r: "run_schedule [0, 0, 0, 0, 0, 0, 2, 2, 2, 2, 2, 2, 1, 1, 1, 1, 1, 1] ?init = Some ?final"
    by code_simp
  have j: "joined ?final" by (simp add: joined_def)
  from merged_totals [OF f] r j have "run_threads ?g [0, 4, 8] = Inr (shared ?final)"
    by blast
  with f r show ?thesis by simp
qed

section \<open>Claims about ingestion\<close>

declare read_lines.simps [simp del]

lemma appended_Nil [simp]: "appended f [] = f"
  by (simp add: appended_def)

lemma store_byte_appended:
  "seq_ptr f < length (sequence f) \<Longrightarrow> store_byte f c = Inr (appended f [c])"
  by (simp add: store_byte_def appended_def upd_conv_take_nth_drop)

lemma appended_appended:
  "seq_ptr f \<le> length (sequence f) \<Longrightarrow>
   appended (appended f d) e = appended f (d @ e)"
  by (simp add: appended_def min_def ac_simps)

lemma copy_line_appended:
  "newline \<notin> set l \<Longrightarrow> seq_ptr f + length l \<le> length (sequence f) \<Longrightarrow>
   copy_line (l @ newline # junk) f = Inr (appended f l)"
proof (induction l arbitrary: f)
  case Nil
  then show ?case by simp
next
  case (Cons c l)
  from Cons.prems have p: "seq_ptr f < length (sequence f)" and c: "c \<noteq> newline" by auto
  have len: "length (sequence (appended f [c])) = length (sequence f)"
    using p by (simp add: appended_def)
  have "copy_line (l @ newline # junk) (appended f [c]) = Inr (appended (appended f [c]) l)"
    using Cons.prems by (intro Cons.IH) (simp_all add: len, simp add: appended_def)
  with Cons.prems p c show ?case
    by (simp add: store_byte_appended appended_appended)
qed

lemma take_line_line:
  "newline \<notin> set l \<Longrightarrow> length l < n \<Longrightarrow> take_line n (l @ newline # r) = l @ [newline]"
proof (induction l arbitrary: n)
  case Nil
  then show ?case by (cases n) simp_all
next
  case (Cons c l)
  then have "c \<noteq> newline" by auto
  with Cons show ?case by (cases n) simp_all
qed

lemma gzgets_line:
  assumes "newline \<notin> set l" "length l + 1 < line_buffer_length"
  shows "gzgets (file_text (l # ls)) buf line_buffer_length =
    Some ((l @ [newline]) @ NUL # drop (Suc (length (l @ [newline]))) buf, file_text ls)"
proof -
  have t: "file_text (l # ls) = l @ newline # file_text ls" by (simp add: file_text_def)
  have "take_line (line_buffer_length - 1) (l @ newline # file_text ls) = l @ [newline]"
    using assms by (intro take_line_line) simp_all
  then show ?thesis
    unfolding t by (simp add: gzgets_def Let_def)
qed

lemma fasta_ok_appended:
  assumes "fasta_ok f"
    "int (cur_length f + length d) + int line_buffer_length \<le> max_length f"
  shows "fasta_ok (appended f d)"
  using assms by (auto simp: fasta_ok_def appended_def)

lemma first_char:
  "newline \<notin> set l \<Longrightarrow> ((l @ [newline]) @ r) ! 0 = CHR ''>'' \<longleftrightarrow> is_annotation l"
  by (cases l) (auto simp: is_annotation_def newline_def)

lemma read_lines_Nil: "read_lines [] line_buffer f = Inr f"
  by (simp add: read_lines.simps [of "[]"] gzgets_def)

lemma read_lines_capacity:
  assumes "fasta_ok f"
    and "\<forall>l\<in>set ls. newline \<notin> set l \<and> length l + 1 < line_buffer_length"
  shows "read_lines (file_text ls) line_buffer f =
     (if max_length f < int (cur_length f) + int (length (payload ls)) + int line_buffer_length
      then Inl BufferTooSmall
      else Inr (appended f (payload ls)))"
  using assms
proof (induction ls arbitrary: f line_buffer)
  case Nil
  then show ?case
    by (simp add: file_text_def payload_def read_lines_Nil fasta_ok_def)
next
  case (Cons l ls)
  from Cons.prems(2) have l: "newline \<notin> set l" "length l + 1 < line_buffer_length"
    and ls: "\<forall>l\<in>set ls. newline \<notin> set l \<and> length l + 1 < line_buffer_length"
    by simp_all
  let ?buf = "(l @ [newline]) @ NUL # drop (Suc (length (l @ [newline]))) line_buffer"
  note gz = gzgets_line [OF l, of ls line_buffer]
  from Cons.prems(1) have ok: "seq_ptr f = cur_length f" "length (sequence f) = nat (max_length f)"
    "int (cur_length f) + int line_buffer_length \<le> max_length f"
    by (simp_all add: fasta_ok_def)
  show ?case
  proof (cases "is_annotation l")
    case True
    then have pl: "payload (l # ls) = payload ls" by (simp add: payload_def)
    have "read_lines (file_text (l # ls)) line_buffer f = read_lines (file_text ls) ?buf f"
      using True ok(3) first_char [OF l(1)]
      by (subst read_lines.simps) (simp add: gz)
    with Cons.IH [OF Cons.prems(1) ls] show ?thesis by (simp add: pl)
  next
    case False
    then have pl: "payload (l # ls) = l @ payload ls" by (simp add: payload_def)
    have fits: "seq_ptr f + length l \<le> length (sequence f)"
      using ok l(2) by simp
    note cp = copy_line_appended [OF l(1) fits]
    have cur: "cur_length (appended f l) = cur_length f + length l"
      "max_length (appended f l) = max_length f"
      by (simp_all add: appended_def)
    show ?thesis
    proof (cases "max_length f < int (cur_length f + length l) + int line_buffer_length")
      case True
      have "read_lines (file_text (l # ls)) line_buffer f = Inl BufferTooSmall"
        using False True first_char [OF l(1)]
        by (subst read_lines.simps) (simp add: gz cp cur)
      with True show ?thesis by (simp add: pl)
    next
      case no: False
      then have ok': "fasta_ok (appended f l)"
        by (intro fasta_ok_appended [OF Cons.prems(1)]) simp
      have "read_lines (file_text (l # ls)) line_buffer f
          = read_lines (file_text ls) ?buf (appended f l)"
        using False no first_char [OF l(1)]
        by (subst read_lines.simps) (simp add: gz cp cur)
      with Cons.IH [OF ok' ls, of ?buf] fits show ?thesis
        by (simp add: pl cur appended_appended add.assoc)
    qed
  qed
qed

lemma contents_appended:
  assumes "fasta_ok f"
    "int (cur_length f + length d) + int line_buffer_length \<le> max_length f"
  shows "contents (appended f d) = contents f @ d"
  using assms by (auto simp: fasta_ok_def appended_def contents_def)

lemma fasta_ok_create:
  "int line_buffer_length \<le> n \<Longrightarrow> fasta_ok (fasta_create n heap)"
  by (auto simp: fasta_ok_def fasta_create_def indeterminate_def)

text \<open>
  C7, as the code has it. The capacity check is \<open>cur_length + line_buffer_length > max_length\<close>,
  made after each line has been copied. Let the buffer have at least \<open>line_buffer_length\<close>
  (1024) free bytes, and let every line of the file end in a newline and have fewer than
  1023 characters. Then reading the file ends in the fatal "buffer too small" exit exactly
  when the data of the file would leave fewer than 1024 bytes free; the data need not
  exceed the capacity for that. Otherwise the read succeeds, the buffer holds the previous
  data followed by all the data bytes of the file in order, and 1024 bytes are free again.
  In neither case is a byte stored outside the block (that would be the result
  \<open>HeapOverflow\<close>).
\<close>

theorem append_capacity:
  assumes "fasta_ok f"
    and "\<forall>l\<in>set ls. newline \<notin> set l \<and> length l + 1 < line_buffer_length"
  shows "fasta_read_file (Some (file_text ls)) stack f =
       (if max_length f < int (cur_length f) + int (length (payload ls)) + int line_buffer_length
        then Inl BufferTooSmall
        else Inr (appended f (payload ls)))
    \<and> (int (cur_length f) + int (length (payload ls)) + int line_buffer_length \<le> max_length f
         \<longrightarrow> contents (appended f (payload ls)) = contents f @ payload ls
           \<and> max_length (appended f (payload ls)) = max_length f
           \<and> fasta_ok (appended f (payload ls)))"
proof -
  have "fasta_read_file (Some (file_text ls)) stack f =
       (if max_length f < int (cur_length f) + int (length (payload ls)) + int line_buffer_length
        then Inl BufferTooSmall
        else Inr (appended f (payload ls)))"
    unfolding fasta_read_file_def using read_lines_capacity [OF assms] by simp
  moreover have "contents (appended f (payload ls)) = contents f @ payload ls
           \<and> max_length (appended f (payload ls)) = max_length f
           \<and> fasta_ok (appended f (payload ls))"
    if "int (cur_length f) + int (length (payload ls)) + int line_buffer_length \<le> max_length f"
    using that contents_appended [OF assms(1), of "payload ls"]
      fasta_ok_appended [OF assms(1), of "payload ls"]
    by (simp add: appended_def)
  ultimately show ?thesis by blast
qed

text \<open>A file with an annotation line and a data line, read into a fresh block of 1100
  bytes.\<close>

theorem append_capacity_witness:
  "fasta_read_file (Some (''>chr1'' @ [newline] @ ''AACGTACGTAA'' @ [newline])) []
       (fasta_create 1100 [])
     = Inr (appended (fasta_create 1100 []) ''AACGTACGTAA'')
   \<and> contents (appended (fasta_create 1100 []) ''AACGTACGTAA'') = ''AACGTACGTAA''"
proof -
  let ?f = "fasta_create 1100 []" and ?ls = "[''>chr1'', ''AACGTACGTAA'']"
  have ok: "fasta_ok ?f"
    by (rule fasta_ok_create) (simp add: line_buffer_length_def)
  have wf: "\<forall>l\<in>set ?ls. newline \<notin> set l \<and> length l + 1 < line_buffer_length"
    by (simp add: newline_def line_buffer_length_def)
  have t: "file_text ?ls = ''>chr1'' @ [newline] @ ''AACGTACGTAA'' @ [newline]"
    "payload ?ls = ''AACGTACGTAA''"
    by (simp_all add: file_text_def payload_def is_annotation_def)
  have c: "contents ?f = []" "cur_length ?f = 0" "max_length ?f = 1100"
    by (simp_all add: contents_def fasta_create_def)
  from append_capacity [OF ok wf, of "[]"] show ?thesis
    unfolding t c by (simp add: line_buffer_length_def)
qed

text \<open>C7 as stated fails: 8 bytes of data fit into a fresh buffer of 1030 bytes, and yet the
  read ends in the fatal exit, since fewer than 1024 bytes would remain free.\<close>

theorem append_capacity_counterexample:
  "fasta_read_file (Some (''ACGTACGT'' @ [newline])) [] (fasta_create 1030 [])
     = Inl BufferTooSmall
   \<and> int (cur_length (fasta_create 1030 [])) + int (length ''ACGTACGT'')
       \<le> max_length (fasta_create 1030 [])"
  by code_simp

section \<open>Claims about the configuration\<close>

text \<open>
  C9. The claim asks that a worker count of zero is rejected as a configuration error
  before the partition, so that the chunk size is never computed with a zero divisor.
  \<open>main\<close> checks the capacity and the pattern after the options are read
  (\<open>fasta_max_length == 0 || pattern == NULL\<close>) but not the worker count: with \<open>-n 0\<close> the
  options are accepted, the file is read, and the run reaches the division
  \<open>cur_length / num_threads\<close> with \<open>num_threads = 0\<close>. The same options with capacity 0 end in
  \<open>usage\<close>.
\<close>

theorem zero_worker_count_reaches_division:
  "getopt_loop [Opt_b 1100, Opt_p ''ACGT'', Opt_n 0] initial_settings
     = Inr \<lparr>fasta_max_length = 1100, pattern_arg = Some ''ACGT'', verbose_arg = False,
            num_threads_arg = 0\<rparr>
   \<and> main [Opt_b 1100, Opt_p ''ACGT'', Opt_n 0] [Some (''AACGTACGTAA'' @ [newline])] [] []
     = Inl DivideByZero
   \<and> main [Opt_b 0, Opt_p ''ACGT'', Opt_n 0] [Some (''AACGTACGTAA'' @ [newline])] [] []
     = Inl Usage"
  by code_simp

end
